theory Spec2Isabelle
  imports Complex_Main "HOL-Library.Multiset"
begin

section \<open>CT slice viewer and HU histogram (HU.ipynb)\<close>

text \<open>
  The notebook holds one script: an uploaded ZIP archive is saved and extracted into a
  temporary directory, every \<^verbatim>\<open>.dcm\<close> file below it is read with pydicom, the
  datasets of modality CT are sorted by InstanceNumber, rescaled to Hounsfield units,
  stacked into a volume, and the middle slice and a histogram are drawn.

  The script is glue over libraries. What the libraries hand back to the script is an
  input of the model: the outcome of the extraction, the tuples produced by
  \<^verbatim>\<open>os.walk\<close>, the dataset \<^verbatim>\<open>pydicom.dcmread\<close> makes of a path, and numpy's
  float32 conversion, multiplication and addition. Every exception the script can meet
  is a value of \<open>py_error\<close>, and a run is a value of \<open>py_error + st_call list\<close>: the
  uncaught exception, or the calls made on the page.
\<close>

subsection \<open>Python strings and paths\<close>

text \<open>
  Strings are byte lists. \<^verbatim>\<open>str.lower\<close> and \<^verbatim>\<open>str.upper\<close> are modelled on the ASCII
  letters and leave every other byte alone.
\<close>

definition ascii_uppercase :: string where
  "ascii_uppercase = ''ABCDEFGHIJKLMNOPQRSTUVWXYZ''"

definition ascii_lowercase :: string where
  "ascii_lowercase = ''abcdefghijklmnopqrstuvwxyz''"

definition lower_char :: "char \<Rightarrow> char" where
  "lower_char c =
     (case map_of (zip ascii_uppercase ascii_lowercase) c of None \<Rightarrow> c | Some l \<Rightarrow> l)"

definition upper_char :: "char \<Rightarrow> char" where
  "upper_char c =
     (case map_of (zip ascii_lowercase ascii_uppercase) c of None \<Rightarrow> c | Some l \<Rightarrow> l)"

definition lower :: "string \<Rightarrow> string" where
  "lower s = map lower_char s"

definition upper :: "string \<Rightarrow> string" where
  "upper s = map upper_char s"

definition endswith :: "string \<Rightarrow> string \<Rightarrow> bool" where
  "endswith s suf = (length suf \<le> length s \<and> drop (length s - length suf) s = suf)"

definition startswith :: "string \<Rightarrow> string \<Rightarrow> bool" where
  "startswith s pre = (take (length pre) s = pre)"

text \<open>\<^verbatim>\<open>os.path.join(a, b)\<close> on POSIX, for two components.\<close>

definition path_join :: "string \<Rightarrow> string \<Rightarrow> string" where
  "path_join a b =
     (if startswith b ''/'' then b
      else if a = [] \<or> endswith a ''/'' then a @ b
      else a @ ''/'' @ b)"

text \<open>The decimal text of a natural number, as an f-string prints it.\<close>

definition digit :: "nat \<Rightarrow> char" where
  "digit d = ''0123456789'' ! d"

fun str_nat :: "nat \<Rightarrow> string" where
  "str_nat n =
     (if n < 10 then [digit n] else str_nat (n div 10) @ [digit (n mod 10)])"

declare str_nat.simps [simp del]

subsection \<open>Exceptions\<close>

datatype py_error =
    BadZipFile
  | InvalidDicomError
  | AttributeError
  | ValueError
  | IndexError
  | TypeError

subsection \<open>Arrays and floating-point values\<close>

text \<open>
  A numpy array is its shape and its elements in C order. The value of a float32 is a
  rational, an infinity or NaN. The order of these values is interpreted (by the
  histogram), and so is the float32 of an integer, which IEEE 754 fixes; the
  multiplication and the addition that produce them are numpy's.
\<close>

record 'a ndarray =
  shape :: "nat list"
  flat :: "'a list"

datatype float32 = Finite rat | PosInf | NegInf | NaN

text \<open>
  The second operand of \<^verbatim>\<open>array * slope\<close> and \<^verbatim>\<open>... + intercept\<close>: the Python
  integers \<^verbatim>\<open>1\<close> and \<^verbatim>\<open>0\<close> of the \<^verbatim>\<open>getattr\<close> defaults, or the float pydicom
  made of a DS tag.
\<close>

datatype py_number = PyInt int | DSfloat float32

record numpy =
  np_astype_float32 :: "int \<Rightarrow> float32"
  np_multiply :: "float32 \<Rightarrow> py_number \<Rightarrow> float32"
  np_add :: "float32 \<Rightarrow> py_number \<Rightarrow> float32"

text \<open>
  What \<^verbatim>\<open>astype(np.float32)\<close> makes of an integer is fixed by IEEE 754: the nearest
  number with a significand of 24 bits, a tie going to the even significand, and an
  infinity from \<open>2 ^ 128\<close> on. \<open>bit_length\<close> is Python's \<^verbatim>\<open>int.bit_length\<close>.
\<close>

fun bit_length :: "nat \<Rightarrow> nat" where
  "bit_length n = (if n = 0 then 0 else Suc (bit_length (n div 2)))"

declare bit_length.simps [simp del]

definition float32_of_int :: "int \<Rightarrow> float32" where
  "float32_of_int p =
     (let n = nat \<bar>p\<bar>;
          q = 2 ^ (bit_length n - 24);
          m = n div q;
          r = n mod q;
          m' = (if q < 2 * r \<or> (2 * r = q \<and> odd m) then m + 1 else m);
          a = m' * q
      in if 2 ^ 128 \<le> a then (if p < 0 then NegInf else PosInf)
         else Finite (of_int (sgn p * int a)))"

definition array_map :: "('a \<Rightarrow> 'b) \<Rightarrow> 'a ndarray \<Rightarrow> 'b ndarray" where
  "array_map f a = \<lparr>shape = shape a, flat = map f (flat a)\<rparr>"

subsection \<open>DICOM datasets\<close>

text \<open>
  The attributes the script reads. \<open>None\<close> is an absent tag: reading it raises
  AttributeError, except through \<^verbatim>\<open>getattr\<close> with a default. A tag that is present
  carries a value: InstanceNumber the integer that \<^verbatim>\<open>int\<close> returns for it, the two
  rescale tags the float pydicom made of their decimal strings. \<open>pixel_array\<close> is
  \<open>None\<close> when the dataset holds no pixel data, and the decoded integers otherwise.
\<close>

record dataset =
  Modality :: "string option"
  InstanceNumber :: "int option"
  RescaleSlope :: "float32 option"
  RescaleIntercept :: "float32 option"
  pixel_array :: "int ndarray option"

subsection \<open>The uploaded archive and the temporary directory\<close>

text \<open>
  \<open>zip_ok\<close>: \<^verbatim>\<open>zipfile.ZipFile(zip_path).extractall(tmpdirname)\<close> returns rather than
  raises. \<open>walk\<close>: the (dirpath, dirs, files) tuples of \<^verbatim>\<open>os.walk(tmpdirname)\<close> after the
  extraction, in the order produced. \<open>dcmread\<close>: the dataset pydicom reads at a path,
  \<open>None\<close> where it raises InvalidDicomError.
\<close>

record upload =
  tmpdirname :: string
  zip_ok :: bool
  walk :: "(string \<times> string list \<times> string list) list"
  dcmread :: "string \<Rightarrow> dataset option"

definition zip_path :: "upload \<Rightarrow> string" where
  "zip_path u = path_join (tmpdirname u) ''uploaded.zip''"

subsection \<open>Finding the CT slices\<close>

definition is_dcm :: "string \<Rightarrow> bool" where
  "is_dcm filename = endswith (lower filename) ''.dcm''"

text \<open>The inner loop, over the files of one directory; \<open>ct_slices\<close> is the list so far.\<close>

fun scan_files ::
  "(string \<Rightarrow> dataset option) \<Rightarrow> string \<Rightarrow> string list \<Rightarrow> dataset list
     \<Rightarrow> py_error + dataset list" where
  "scan_files rd dirpath [] ct_slices = Inr ct_slices"
| "scan_files rd dirpath (filename # files) ct_slices =
     (if is_dcm filename then
        (case rd (path_join dirpath filename) of
           None \<Rightarrow> Inl InvalidDicomError
         | Some ds \<Rightarrow>
             (case Modality ds of
                None \<Rightarrow> Inl AttributeError
              | Some m \<Rightarrow>
                  if upper m = ''CT'' then scan_files rd dirpath files (ct_slices @ [ds])
                  else scan_files rd dirpath files ct_slices))
      else scan_files rd dirpath files ct_slices)"

text \<open>The outer loop, over the tuples of the walk.\<close>

fun scan_walk ::
  "(string \<Rightarrow> dataset option) \<Rightarrow> (string \<times> string list \<times> string list) list
     \<Rightarrow> dataset list \<Rightarrow> py_error + dataset list" where
  "scan_walk rd [] ct_slices = Inr ct_slices"
| "scan_walk rd ((dirpath, dirs, files) # rest) ct_slices =
     (case scan_files rd dirpath files ct_slices of
        Inl e \<Rightarrow> Inl e
      | Inr ct_slices' \<Rightarrow> scan_walk rd rest ct_slices')"

definition find_ct_slices :: "upload \<Rightarrow> py_error + dataset list" where
  "find_ct_slices u = scan_walk (dcmread u) (walk u) []"

subsection \<open>Ordering by InstanceNumber\<close>

text \<open>
  \<^verbatim>\<open>sorted(ct_slices, key=lambda x: int(x.InstanceNumber))\<close>. Python computes the key of
  every element before it compares any, so a dataset without the tag raises
  AttributeError; the sort is stable, and a stable sort has one result, which
  \<open>sort_key\<close> computes.
\<close>

definition instance_key :: "dataset \<Rightarrow> int" where
  "instance_key x = the (InstanceNumber x)"

definition sorted_by_instance :: "dataset list \<Rightarrow> py_error + dataset list" where
  "sorted_by_instance ct_slices =
     (if list_all (\<lambda>x. InstanceNumber x \<noteq> None) ct_slices
      then Inr (sort_key instance_key ct_slices)
      else Inl AttributeError)"

subsection \<open>Conversion to Hounsfield units\<close>

definition rescale_slope :: "dataset \<Rightarrow> py_number" where
  "rescale_slope s = (case RescaleSlope s of None \<Rightarrow> PyInt 1 | Some v \<Rightarrow> DSfloat v)"

definition rescale_intercept :: "dataset \<Rightarrow> py_number" where
  "rescale_intercept s = (case RescaleIntercept s of None \<Rightarrow> PyInt 0 | Some v \<Rightarrow> DSfloat v)"

text \<open>\<^verbatim>\<open>s.pixel_array.astype(np.float32) * slope + intercept\<close>, three elementwise passes.\<close>

definition hu_slice :: "numpy \<Rightarrow> dataset \<Rightarrow> int ndarray \<Rightarrow> float32 ndarray" where
  "hu_slice np s pixels =
     (let slope = rescale_slope s;
          intercept = rescale_intercept s
      in array_map (\<lambda>x. np_add np x intercept)
           (array_map (\<lambda>x. np_multiply np x slope)
              (array_map (np_astype_float32 np) pixels)))"

fun hu_slices :: "numpy \<Rightarrow> dataset list \<Rightarrow> py_error + float32 ndarray list" where
  "hu_slices np [] = Inr []"
| "hu_slices np (s # ss) =
     (case pixel_array s of
        None \<Rightarrow> Inl AttributeError
      | Some pixels \<Rightarrow>
          (case hu_slices np ss of
             Inl e \<Rightarrow> Inl e
           | Inr pixel_arrays \<Rightarrow> Inr (hu_slice np s pixels # pixel_arrays)))"

subsection \<open>The volume\<close>

text \<open>
  \<^verbatim>\<open>np.stack\<close> joins arrays of one shape along a new first axis and raises ValueError
  on an empty list or on two shapes that differ. The stacked array is kept as the list
  of its sub-arrays along the first axis: \<open>length\<close> is \<^verbatim>\<open>volume.shape[0]\<close>,
  \<open>getitem\<close> is \<^verbatim>\<open>volume[i]\<close> for an index that is not negative, \<open>ravel\<close> is
  \<^verbatim>\<open>volume.ravel()\<close>.
\<close>

type_synonym volume = "float32 ndarray list"

definition np_stack :: "'a ndarray list \<Rightarrow> py_error + 'a ndarray list" where
  "np_stack arrays =
     (case arrays of
        [] \<Rightarrow> Inl ValueError
      | a # rest \<Rightarrow>
          if list_all (\<lambda>b. shape b = shape a) rest then Inr arrays else Inl ValueError)"

definition getitem :: "'a list \<Rightarrow> nat \<Rightarrow> py_error + 'a" where
  "getitem v i = (if i < length v then Inr (v ! i) else Inl IndexError)"

definition ravel :: "'a ndarray list \<Rightarrow> 'a list" where
  "ravel v = concat (map flat v)"

definition assemble_volume :: "numpy \<Rightarrow> dataset list \<Rightarrow> py_error + volume" where
  "assemble_volume np ct_slices =
     (case sorted_by_instance ct_slices of
        Inl e \<Rightarrow> Inl e
      | Inr ordered \<Rightarrow>
          (case hu_slices np ordered of
             Inl e \<Rightarrow> Inl e
           | Inr pixel_arrays \<Rightarrow> np_stack pixel_arrays))"

subsection \<open>The histogram\<close>

text \<open>
  \<^verbatim>\<open>ax.hist(x, bins=n, range=(lo, hi))\<close> is numpy's histogram: \<open>n + 1\<close> evenly spaced
  edges from \<open>lo\<close> to \<open>hi\<close>; bin \<open>i\<close> counts the values \<open>v\<close> with
  \<open>edges[i] \<le> v < edges[i+1]\<close>, the last bin also those equal to \<open>hi\<close>; values
  below \<open>lo\<close> or above \<open>hi\<close>, and NaN, are in no bin. It raises ValueError when
  \<open>n\<close> is not positive or \<open>hi < lo\<close>, and widens an empty range by one half on each
  side.
\<close>

definition linspace :: "rat \<Rightarrow> rat \<Rightarrow> nat \<Rightarrow> rat list" where
  "linspace lo hi n = map (\<lambda>i. lo + (hi - lo) * of_nat i / of_nat n) [0..<Suc n]"

definition in_bin :: "rat list \<Rightarrow> nat \<Rightarrow> nat \<Rightarrow> float32 \<Rightarrow> bool" where
  "in_bin edges n i x =
     (case x of
        Finite v \<Rightarrow>
          edges ! i \<le> v \<and> (v < edges ! Suc i \<or> (Suc i = n \<and> v = edges ! Suc i))
      | _ \<Rightarrow> False)"

definition np_histogram ::
  "float32 list \<Rightarrow> nat \<Rightarrow> rat \<times> rat \<Rightarrow> py_error + nat list \<times> rat list" where
  "np_histogram a n bin_range =
     (let (lo, hi) = bin_range in
      if n = 0 \<or> hi < lo then Inl ValueError
      else
        let (first_edge, last_edge) = (if lo = hi then (lo - 1 / 2, hi + 1 / 2) else (lo, hi));
            edges = linspace first_edge last_edge n
        in Inr (map (\<lambda>i. length (filter (in_bin edges n i) a)) [0..<n], edges))"

subsection \<open>The page\<close>

datatype st_call =
    Title string
  | Error string
  | Write string
  | Imshow "float32 ndarray" rat rat
  | Hist "nat list" "rat list"

definition mid_slice_idx :: "volume \<Rightarrow> nat" where
  "mid_slice_idx v = length v div 2"

text \<open>
  \<^verbatim>\<open>ax.imshow\<close> takes an array of two dimensions, or of three whose last is 1, 3 or 4
  (a single channel, RGB, RGBA), and raises TypeError on any other shape: on one slice of
  a volume stacked from multi-frame pixel data, for instance.
\<close>

definition imshow_accepts :: "nat list \<Rightarrow> bool" where
  "imshow_accepts sh =
     (length sh = 2 \<or> (length sh = 3 \<and> (last sh = 1 \<or> last sh = 3 \<or> last sh = 4)))"

text \<open>
  The \<^verbatim>\<open>else\<close> branch of the script once the volume is stacked: the index is
  written, the middle slice is drawn, then the histogram. An exception ends the run, and
  the run is then that exception.
\<close>

definition display :: "volume \<Rightarrow> py_error + st_call list" where
  "display v =
     (case getitem v (mid_slice_idx v) of
        Inl e \<Rightarrow> Inl e
      | Inr middle \<Rightarrow>
          if \<not> imshow_accepts (shape middle) then Inl TypeError
          else
            (case np_histogram (ravel v) 200 (- 1000, 2000) of
               Inl e \<Rightarrow> Inl e
             | Inr (counts, edges) \<Rightarrow>
                 Inr [Write (''Displaying middle slice #'' @ str_nat (mid_slice_idx v)),
                      Imshow middle (- 1000) 400,
                      Hist counts edges]))"

text \<open>The body of \<^verbatim>\<open>if uploaded_file:\<close>.\<close>

definition process :: "numpy \<Rightarrow> upload \<Rightarrow> py_error + st_call list" where
  "process np u =
     (if \<not> zip_ok u then Inl BadZipFile
      else
        (case find_ct_slices u of
           Inl e \<Rightarrow> Inl e
         | Inr ct_slices \<Rightarrow>
             if length ct_slices = 0
             then Inr [Error ''No CT DICOM slices found in uploaded ZIP.'']
             else
               (case assemble_volume np ct_slices of
                  Inl e \<Rightarrow> Inl e
                | Inr v \<Rightarrow> display v)))"

text \<open>The script: \<open>None\<close> is a page on which nothing has been uploaded yet.\<close>

definition app :: "numpy \<Rightarrow> upload option \<Rightarrow> py_error + st_call list" where
  "app np uploaded_file =
     (case uploaded_file of
        None \<Rightarrow> Inr [Title ''CT Slice Viewer + HU Histogram'']
      | Some u \<Rightarrow>
          (case process np u of
             Inl e \<Rightarrow> Inl e
           | Inr calls \<Rightarrow> Inr (Title ''CT Slice Viewer + HU Histogram'' # calls)))"

section \<open>Specification-side notions\<close>

text \<open>
  What the specification speaks of, written without the loops: the paths of the walk whose
  file name ends in \<^verbatim>\<open>.dcm\<close> in any letter case, the datasets of modality CT found
  at them, and the files that pydicom parses into a dataset with a Modality tag.
\<close>

definition dcm_paths :: "(string \<times> string list \<times> string list) list \<Rightarrow> string list" where
  "dcm_paths w =
     concat (map (\<lambda>(dirpath, dirs, files). map (path_join dirpath) (filter is_dcm files)) w)"

definition walked_paths :: "(string \<times> string list \<times> string list) list \<Rightarrow> string list" where
  "walked_paths w = concat (map (\<lambda>(dirpath, dirs, files). map (path_join dirpath) files) w)"

definition is_ct :: "dataset \<Rightarrow> bool" where
  "is_ct ds = (case Modality ds of None \<Rightarrow> False | Some m \<Rightarrow> upper m = ''CT'')"

definition parses :: "(string \<Rightarrow> dataset option) \<Rightarrow> string \<Rightarrow> bool" where
  "parses rd p = (case rd p of None \<Rightarrow> False | Some ds \<Rightarrow> Modality ds \<noteq> None)"

definition other_modality :: "dataset option \<Rightarrow> bool" where
  "other_modality r =
     (case r of
        None \<Rightarrow> False
      | Some ds \<Rightarrow> (case Modality ds of None \<Rightarrow> False | Some m \<Rightarrow> upper m \<noteq> ''CT''))"

definition ct_at :: "(string \<Rightarrow> dataset option) \<Rightarrow> string \<Rightarrow> dataset list" where
  "ct_at rd p = (case rd p of None \<Rightarrow> [] | Some ds \<Rightarrow> if is_ct ds then [ds] else [])"

definition kept :: "(string \<Rightarrow> dataset option) \<Rightarrow> string list \<Rightarrow> dataset list" where
  "kept rd ps = concat (map (ct_at rd) ps)"

text \<open>
  Two readers agree at a path up to other modalities: they read the same there, or each
  reads a dataset whose Modality, uppercased, is not CT.
\<close>

definition same_or_other ::
  "(string \<Rightarrow> dataset option) \<Rightarrow> (string \<Rightarrow> dataset option) \<Rightarrow> string \<Rightarrow> bool" where
  "same_or_other rd rd' p =
     (rd' p = rd p \<or> (other_modality (rd p) \<and> other_modality (rd' p)))"

text \<open>
  The HU array of a dataset, where it has pixel data, and the shape of its pixel data.
\<close>

definition hu_of :: "numpy \<Rightarrow> dataset \<Rightarrow> float32 ndarray option" where
  "hu_of np s = map_option (hu_slice np s) (pixel_array s)"

definition pixel_shape :: "dataset \<Rightarrow> nat list option" where
  "pixel_shape s = map_option shape (pixel_array s)"

definition in_hist_range :: "float32 \<Rightarrow> bool" where
  "in_hist_range x = (case x of Finite v \<Rightarrow> - 1000 \<le> v \<and> v \<le> 2000 | _ \<Rightarrow> False)"

definition hist_edges :: "rat list" where
  "hist_edges = map (\<lambda>i. - 1000 + 15 * of_nat i) [0..<201]"

text \<open>
  The counts of the 200 bins over \<open>hist_edges\<close>, and the bin a value in range falls in.
\<close>

definition hist_counts :: "float32 list \<Rightarrow> nat list" where
  "hist_counts a = map (\<lambda>i. length (filter (in_bin hist_edges 200 i) a)) [0..<200]"

definition bin_of :: "rat \<Rightarrow> nat" where
  "bin_of x = (if x = 2000 then 199 else nat \<lfloor>(x + 1000) / 15\<rfloor>)"

section \<open>Sample inputs\<close>

text \<open>
  An arithmetic without rounding, which is what float32 computes on the small integers of
  the samples, and an upload in the shape of the specification's scenarios: three CT
  slices with InstanceNumber 3, 1, 2 and one MR slice, below a temporary directory that
  also holds the saved archive.
\<close>

definition exact_numpy :: numpy where
  "exact_numpy =
     \<lparr>np_astype_float32 = (\<lambda>p. Finite (of_int p)),
      np_multiply = (\<lambda>x s. case x of
          Finite a \<Rightarrow>
            (case s of
               PyInt n \<Rightarrow> Finite (a * of_int n)
             | DSfloat (Finite b) \<Rightarrow> Finite (a * b)
             | DSfloat _ \<Rightarrow> NaN)
        | _ \<Rightarrow> x),
      np_add = (\<lambda>x s. case x of
          Finite a \<Rightarrow>
            (case s of
               PyInt n \<Rightarrow> Finite (a + of_int n)
             | DSfloat (Finite b) \<Rightarrow> Finite (a + b)
             | DSfloat _ \<Rightarrow> NaN)
        | _ \<Rightarrow> x)\<rparr>"

text \<open>The same arithmetic with the conversion of integers that IEEE 754 fixes.\<close>

definition rounding_numpy :: numpy where
  "rounding_numpy = exact_numpy\<lparr>np_astype_float32 := float32_of_int\<rparr>"

definition slice_a :: dataset where
  "slice_a = \<lparr>Modality = Some ''CT'', InstanceNumber = Some 3, RescaleSlope = None,
     RescaleIntercept = None, pixel_array = Some \<lparr>shape = [1, 2], flat = [- 2000, 0]\<rparr>\<rparr>"

definition slice_b :: dataset where
  "slice_b = \<lparr>Modality = Some ''ct'', InstanceNumber = Some 1, RescaleSlope = None,
     RescaleIntercept = None, pixel_array = Some \<lparr>shape = [1, 2], flat = [30, 2000]\<rparr>\<rparr>"

definition slice_c :: dataset where
  "slice_c = \<lparr>Modality = Some ''CT'', InstanceNumber = Some 2, RescaleSlope = Some (Finite 2),
     RescaleIntercept = Some (Finite (- 1024)),
     pixel_array = Some \<lparr>shape = [1, 2], flat = [512, 5000]\<rparr>\<rparr>"

definition slice_mr :: dataset where
  "slice_mr = \<lparr>Modality = Some ''MR'', InstanceNumber = Some 1, RescaleSlope = None,
     RescaleIntercept = None, pixel_array = Some \<lparr>shape = [4, 4], flat = replicate 16 7\<rparr>\<rparr>"

definition slice_pt :: dataset where
  "slice_pt = \<lparr>Modality = Some ''PT'', InstanceNumber = None, RescaleSlope = None,
     RescaleIntercept = None, pixel_array = None\<rparr>"

definition sample_upload :: upload where
  "sample_upload =
     \<lparr>tmpdirname = ''/tmp/t'', zip_ok = True,
      walk = [(''/tmp/t'', [''series''], [''uploaded.zip'', ''notes.txt'']),
              (''/tmp/t/series'', [], [''a.dcm'', ''B.DCM'', ''mr.dcm'', ''c.Dcm''])],
      dcmread = map_of [(''/tmp/t/series/a.dcm'', slice_a), (''/tmp/t/series/B.DCM'', slice_b),
                        (''/tmp/t/series/mr.dcm'', slice_mr), (''/tmp/t/series/c.Dcm'', slice_c)]\<rparr>"

definition sample_upload_no_ct :: upload where
  "sample_upload_no_ct =
     \<lparr>tmpdirname = ''/tmp/t'', zip_ok = True,
      walk = [(''/tmp/t'', [], [''uploaded.zip'', ''mr.dcm'', ''pt.DCM''])],
      dcmread = map_of [(''/tmp/t/mr.dcm'', slice_mr), (''/tmp/t/pt.DCM'', slice_pt)]\<rparr>"

definition sample_volume :: volume where
  "sample_volume =
     [\<lparr>shape = [1, 2], flat = [Finite 30, Finite 2000]\<rparr>,
      \<lparr>shape = [1, 2], flat = [Finite 0, Finite 8976]\<rparr>,
      \<lparr>shape = [1, 2], flat = [Finite (- 2000), Finite 0]\<rparr>]"

text \<open>
  A CT slice without rescale tags whose one pixel, \<open>2 ^ 24 + 1\<close>, needs 25 bits; a CT
  slice with multi-frame pixel data (two frames of one row), an upload that holds only
  that slice, and the volume stacked from it.
\<close>

definition slice_wide :: dataset where
  "slice_wide = \<lparr>Modality = Some ''CT'', InstanceNumber = Some 1, RescaleSlope = None,
     RescaleIntercept = None, pixel_array = Some \<lparr>shape = [1, 1], flat = [16777217]\<rparr>\<rparr>"

definition slice_multiframe :: dataset where
  "slice_multiframe = \<lparr>Modality = Some ''CT'', InstanceNumber = Some 1, RescaleSlope = None,
     RescaleIntercept = None,
     pixel_array = Some \<lparr>shape = [2, 1, 2], flat = [0, 40, 2500, - 1000]\<rparr>\<rparr>"

definition sample_upload_multiframe :: upload where
  "sample_upload_multiframe =
     \<lparr>tmpdirname = ''/tmp/t'', zip_ok = True,
      walk = [(''/tmp/t'', [], [''uploaded.zip'', ''cine.dcm''])],
      dcmread = map_of [(''/tmp/t/cine.dcm'', slice_multiframe)]\<rparr>"

definition multiframe_volume :: volume where
  "multiframe_volume =
     [\<lparr>shape = [2, 1, 2], flat = [Finite 0, Finite 40, Finite 2500, Finite (- 1000)]\<rparr>]"

lemmas sample_defs =
  exact_numpy_def slice_a_def slice_b_def slice_c_def slice_mr_def slice_pt_def
  sample_upload_def sample_upload_no_ct_def sample_volume_def

lemmas more_sample_defs =
  rounding_numpy_def slice_wide_def slice_multiframe_def sample_upload_multiframe_def
  multiframe_volume_def

section \<open>Properties of the float32 conversion\<close>

lemma bit_length_less: "n < 2 ^ k \<Longrightarrow> bit_length n \<le> k"
proof (induction k arbitrary: n)
  case 0
  then show ?case by (simp add: bit_length.simps)
next
  case (Suc k)
  then have "n div 2 < 2 ^ k" by simp
  then have "bit_length (n div 2) \<le> k" by (rule Suc.IH)
  then show ?case by (subst bit_length.simps) simp
qed

lemma bit_length_between: "2 ^ k \<le> n \<Longrightarrow> n < 2 ^ Suc k \<Longrightarrow> bit_length n = Suc k"
proof (induction k arbitrary: n)
  case 0
  then have "n = 1" by simp
  moreover have "bit_length (Suc 0) = Suc (bit_length (Suc 0 div 2))"
    by (subst bit_length.simps) simp
  ultimately show ?case by (simp add: bit_length.simps [of 0])
next
  case (Suc k)
  then have "2 ^ k \<le> n div 2" "n div 2 < 2 ^ Suc k" by simp_all
  then have "bit_length (n div 2) = Suc k" by (rule Suc.IH)
  moreover from Suc.prems have "n \<noteq> 0" by auto
  ultimately show ?case by (subst bit_length.simps) simp
qed

lemma float32_of_int_small:
  assumes "\<bar>p\<bar> < 2 ^ 24"
  shows "float32_of_int p = Finite (of_int p)"
proof -
  let ?n = "nat \<bar>p\<bar>"
  from assms have "?n < 2 ^ 24" by (simp add: nat_less_iff)
  then have b: "bit_length ?n - 24 = 0"
    using bit_length_less [of ?n 24] by simp
  from \<open>?n < 2 ^ 24\<close> have "\<not> (2 :: nat) ^ 128 \<le> ?n" by simp
  moreover have "sgn p * int ?n = p" by (simp add: sgn_if)
  ultimately show ?thesis
    by (simp add: float32_of_int_def b Let_def)
qed

lemma float32_of_int_exact:
  assumes "\<bar>p\<bar> \<le> 2 ^ 24"
  shows "float32_of_int p = Finite (of_int p)"
proof (cases "\<bar>p\<bar> < 2 ^ 24")
  case True
  then show ?thesis by (rule float32_of_int_small)
next
  case False
  with assms have "p = 16777216 \<or> p = - 16777216" by (simp add: abs_if split: if_splits)
  moreover have b: "bit_length 16777216 = 25"
    using bit_length_between [of 24 16777216] by simp
  have "float32_of_int 16777216 = Finite 16777216"
    unfolding float32_of_int_def Let_def using b by simp
  moreover have "float32_of_int (- 16777216) = Finite (- 16777216)"
    unfolding float32_of_int_def Let_def using b by simp
  ultimately show ?thesis by auto
qed

lemma float32_of_int_wide: "float32_of_int 16777217 = Finite 16777216"
proof -
  have "bit_length 16777217 = 25"
    using bit_length_between [of 24 16777217] by simp
  then show ?thesis
    unfolding float32_of_int_def Let_def by simp
qed

lemma float32_of_int_wide3: "float32_of_int 16777219 = Finite 16777220"
proof -
  have "bit_length 16777219 = 25"
    using bit_length_between [of 24 16777219] by simp
  then show ?thesis
    unfolding float32_of_int_def Let_def by simp
qed

section \<open>Properties of the scan\<close>

lemmas str_simps =
  lower_def upper_def lower_char_def upper_char_def ascii_uppercase_def ascii_lowercase_def
  endswith_def startswith_def is_dcm_def path_join_def digit_def

lemma scan_files_acc:
  "scan_files rd d fs acc =
     (case scan_files rd d fs [] of Inl e \<Rightarrow> Inl e | Inr r \<Rightarrow> Inr (acc @ r))"
proof (induction fs arbitrary: acc)
  case Nil
  then show ?case by simp
next
  case (Cons f fs)
  have a: "scan_files rd d fs (acc @ [x]) =
     (case scan_files rd d fs [] of Inl e \<Rightarrow> Inl e | Inr r \<Rightarrow> Inr (acc @ x # r))" for x
    using Cons.IH [of "acc @ [x]"] by (simp split: sum.splits)
  have b: "scan_files rd d fs [x] =
     (case scan_files rd d fs [] of Inl e \<Rightarrow> Inl e | Inr r \<Rightarrow> Inr (x # r))" for x
    using Cons.IH [of "[x]"] by (simp split: sum.splits)
  show ?case
    by (simp add: a b Cons.IH [of acc] split: option.splits sum.splits)
qed

lemma case_sum_Inr_iff:
  "(case s of Inl e \<Rightarrow> Inl e | Inr r \<Rightarrow> Inr (f r)) = Inr y \<longleftrightarrow> (\<exists>r. s = Inr r \<and> y = f r)"
  by (cases s) auto

lemma kept_simps:
  "kept rd [] = []"
  "kept rd (p # ps) = ct_at rd p @ kept rd ps"
  "kept rd (ps @ qs) = kept rd ps @ kept rd qs"
  by (simp_all add: kept_def)

lemma scan_files_Inr_iff:
  "scan_files rd d fs [] = Inr r \<longleftrightarrow>
     list_all (parses rd) (map (path_join d) (filter is_dcm fs)) \<and>
     r = kept rd (map (path_join d) (filter is_dcm fs))"
proof (induction fs arbitrary: r)
  case Nil
  then show ?case by (auto simp: kept_simps)
next
  case (Cons f fs)
  let ?ps = "map (path_join d) (filter is_dcm fs)"
  have rest: "scan_files rd d fs [] = Inr r' \<longleftrightarrow> list_all (parses rd) ?ps \<and> r' = kept rd ?ps" for r'
    by (rule Cons.IH)
  show ?case
  proof (cases "is_dcm f")
    case False
    then show ?thesis by (simp add: rest)
  next
    case True
    show ?thesis
    proof (cases "rd (path_join d f)")
      case None
      with True show ?thesis by (simp add: parses_def)
    next
      case (Some x)
      show ?thesis
      proof (cases "Modality x")
        case None
        with True Some show ?thesis by (simp add: parses_def)
      next
        case (Some m)
        have p: "parses rd (path_join d f)"
          using \<open>rd (path_join d f) = Some x\<close> Some by (simp add: parses_def)
        show ?thesis
        proof (cases "upper m = ''CT''")
          case ct: True
          have k: "ct_at rd (path_join d f) = [x]"
            using \<open>rd (path_join d f) = Some x\<close> Some ct by (simp add: ct_at_def is_ct_def)
          show ?thesis
            using True \<open>rd (path_join d f) = Some x\<close> Some ct p k
            by (auto simp: scan_files_acc [of rd d fs "[x]"] case_sum_Inr_iff kept_simps rest)
        next
          case nct: False
          have k: "ct_at rd (path_join d f) = []"
            using \<open>rd (path_join d f) = Some x\<close> Some nct by (simp add: ct_at_def is_ct_def)
          show ?thesis
            using True \<open>rd (path_join d f) = Some x\<close> Some nct p k
            by (simp add: kept_simps rest)
        qed
      qed
    qed
  qed
qed

lemma scan_walk_acc:
  "scan_walk rd w acc =
     (case scan_walk rd w [] of Inl e \<Rightarrow> Inl e | Inr r \<Rightarrow> Inr (acc @ r))"
proof (induction w arbitrary: acc)
  case Nil
  then show ?case by simp
next
  case (Cons t w)
  obtain d ds fs where t: "t = (d, ds, fs)" by (cases t)
  have a: "scan_walk rd w (acc @ r) =
     (case scan_walk rd w [] of Inl e \<Rightarrow> Inl e | Inr r' \<Rightarrow> Inr (acc @ r @ r'))" for r
    using Cons.IH [of "acc @ r"] by (simp split: sum.splits)
  show ?case
  proof (cases "scan_files rd d fs []")
    case (Inl e)
    then show ?thesis by (simp add: t scan_files_acc [of rd d fs acc])
  next
    case (Inr r1)
    then show ?thesis
      by (simp add: t scan_files_acc [of rd d fs acc] a Cons.IH [of r1] split: sum.splits)
  qed
qed

lemma dcm_paths_Cons:
  "dcm_paths ((d, ds, fs) # w) = map (path_join d) (filter is_dcm fs) @ dcm_paths w"
  by (simp add: dcm_paths_def)

lemma scan_walk_Inr_iff:
  "scan_walk rd w [] = Inr r \<longleftrightarrow>
     list_all (parses rd) (dcm_paths w) \<and> r = kept rd (dcm_paths w)"
proof (induction w arbitrary: r)
  case Nil
  then show ?case by (auto simp: dcm_paths_def kept_simps)
next
  case (Cons t w)
  obtain d ds fs where t: "t = (d, ds, fs)" by (cases t)
  have rest: "scan_walk rd w [] = Inr r' \<longleftrightarrow>
      list_all (parses rd) (dcm_paths w) \<and> r' = kept rd (dcm_paths w)" for r'
    by (rule Cons.IH)
  have "scan_walk rd (t # w) [] = Inr r \<longleftrightarrow>
      (\<exists>r1. scan_files rd d fs [] = Inr r1 \<and> scan_walk rd w r1 = Inr r)"
    by (cases "scan_files rd d fs []") (simp_all add: t)
  also have "\<dots> \<longleftrightarrow> (\<exists>r1 r2. scan_files rd d fs [] = Inr r1 \<and> scan_walk rd w [] = Inr r2 \<and> r = r1 @ r2)"
    by (subst scan_walk_acc) (auto simp: case_sum_Inr_iff)
  also have "\<dots> \<longleftrightarrow> list_all (parses rd) (dcm_paths (t # w)) \<and> r = kept rd (dcm_paths (t # w))"
    by (auto simp: t dcm_paths_Cons kept_simps rest scan_files_Inr_iff)
  finally show ?case .
qed

lemma find_ct_slices_Inr_iff:
  "find_ct_slices u = Inr cts \<longleftrightarrow>
     list_all (parses (dcmread u)) (dcm_paths (walk u)) \<and> cts = kept (dcmread u) (dcm_paths (walk u))"
  by (simp add: find_ct_slices_def scan_walk_Inr_iff)

lemma scan_files_cong:
  "list_all (same_or_other rd rd') (map (path_join d) (filter is_dcm fs)) \<Longrightarrow>
     scan_files rd' d fs acc = scan_files rd d fs acc"
proof (induction fs arbitrary: acc)
  case Nil
  then show ?case by simp
next
  case (Cons f fs)
  then have rest: "scan_files rd' d fs acc' = scan_files rd d fs acc'" for acc'
    by (simp split: if_splits)
  show ?case
  proof (cases "is_dcm f")
    case False
    then show ?thesis by (simp add: rest)
  next
    case True
    with Cons.prems have "same_or_other rd rd' (path_join d f)" by simp
    then show ?thesis
      using True
      by (cases "rd (path_join d f)"; cases "rd' (path_join d f)")
         (auto simp: same_or_other_def other_modality_def rest split: option.splits)
  qed
qed

lemma scan_walk_cong:
  "list_all (same_or_other rd rd') (dcm_paths w) \<Longrightarrow> scan_walk rd' w acc = scan_walk rd w acc"
proof (induction w arbitrary: acc)
  case Nil
  then show ?case by simp
next
  case (Cons t w)
  obtain d ds fs where t: "t = (d, ds, fs)" by (cases t)
  from Cons.prems have a: "list_all (same_or_other rd rd') (map (path_join d) (filter is_dcm fs))"
    and b: "list_all (same_or_other rd rd') (dcm_paths w)"
    by (simp_all add: t dcm_paths_Cons)
  show ?case
    by (simp add: t scan_files_cong [OF a] Cons.IH [OF b] split: sum.splits)
qed

lemma process_cong:
  assumes "list_all (same_or_other (dcmread u) rd') (dcm_paths (walk u))"
  shows "process np (u\<lparr>dcmread := rd'\<rparr>) = process np u"
  using scan_walk_cong [OF assms, of "[]"] by (simp add: process_def find_ct_slices_def)

lemma endswith_append:
  "length suf \<le> length s \<Longrightarrow> endswith (x @ s) suf = endswith s suf"
  by (simp add: endswith_def)

lemma is_dcm_append: "is_dcm f \<Longrightarrow> is_dcm (x @ f)"
proof -
  assume f: "is_dcm f"
  then have "length ''.dcm'' \<le> length (lower f)"
    by (simp add: is_dcm_def endswith_def)
  then have "endswith (lower x @ lower f) ''.dcm'' = endswith (lower f) ''.dcm''"
    by (rule endswith_append)
  with f show ?thesis
    by (simp add: is_dcm_def lower_def)
qed

lemma not_is_dcm_append:
  assumes "\<not> is_dcm f" "4 \<le> length f"
  shows "\<not> is_dcm (x @ f)"
proof -
  from assms(2) have "length ''.dcm'' \<le> length (lower f)"
    by (simp add: lower_def)
  then have "endswith (lower x @ lower f) ''.dcm'' = endswith (lower f) ''.dcm''"
    by (rule endswith_append)
  with assms(1) show ?thesis
    by (simp add: is_dcm_def lower_def)
qed

lemma path_join_suffix: "\<exists>x. path_join d f = x @ f"
  by (auto simp: path_join_def)

lemma is_dcm_path_join: "is_dcm f \<Longrightarrow> is_dcm (path_join d f)"
  using path_join_suffix [of d f] is_dcm_append [of f] by metis

lemma not_is_dcm_uploaded: "\<not> is_dcm ''uploaded.zip''"
  by (simp add: str_simps)

lemma not_is_dcm_zip_path: "\<not> is_dcm (zip_path u)"
proof -
  obtain x where "zip_path u = x @ ''uploaded.zip''"
    using path_join_suffix [of "tmpdirname u" "''uploaded.zip''"] by (auto simp: zip_path_def)
  then show ?thesis
    using not_is_dcm_append [OF not_is_dcm_uploaded, of x] by simp
qed

lemma dcm_paths_is_dcm: "p \<in> set (dcm_paths w) \<Longrightarrow> is_dcm p"
  by (auto simp: dcm_paths_def is_dcm_path_join)

lemma zip_path_not_parsed: "zip_path u \<notin> set (dcm_paths (walk u))"
  using dcm_paths_is_dcm not_is_dcm_zip_path by blast

section \<open>Properties of the volume\<close>

lemma hu_slices_Inr_iff:
  "hu_slices np ss = Inr r \<longleftrightarrow> map (hu_of np) ss = map Some r"
proof (induction ss arbitrary: r)
  case Nil
  then show ?case by auto
next
  case (Cons s ss)
  show ?case
  proof (cases "pixel_array s")
    case None
    then show ?thesis by (auto simp: hu_of_def)
  next
    case (Some px)
    then show ?thesis
      by (cases r) (auto simp: hu_of_def case_sum_Inr_iff Cons.IH)
  qed
qed

lemma hu_slices_error: "hu_slices np ss = Inl e \<Longrightarrow> e = AttributeError"
  by (induction ss arbitrary: e) (auto split: option.splits sum.splits)

lemma shape_hu_slice: "shape (hu_slice np s px) = shape px"
  by (simp add: hu_slice_def array_map_def)

lemma np_stack_Inr_iff:
  "np_stack arrays = Inr v \<longleftrightarrow>
     arrays \<noteq> [] \<and> (\<forall>a\<in>set arrays. \<forall>b\<in>set arrays. shape a = shape b) \<and> v = arrays"
  by (cases arrays) (auto simp: np_stack_def list_all_iff)

lemma np_stack_error: "np_stack arrays = Inl e \<Longrightarrow> e = ValueError"
  by (auto simp: np_stack_def split: list.splits if_splits)

lemma sorted_by_instance_Inr_iff:
  "sorted_by_instance cts = Inr ordered \<longleftrightarrow>
     list_all (\<lambda>x. InstanceNumber x \<noteq> None) cts \<and> ordered = sort_key instance_key cts"
  by (auto simp: sorted_by_instance_def)

lemma assemble_volume_Inr_iff:
  "assemble_volume np cts = Inr v \<longleftrightarrow>
     list_all (\<lambda>x. InstanceNumber x \<noteq> None) cts \<and>
     map (hu_of np) (sort_key instance_key cts) = map Some v \<and>
     v \<noteq> [] \<and> (\<forall>a\<in>set v. \<forall>b\<in>set v. shape a = shape b)"
proof (cases "sorted_by_instance cts")
  case (Inl e)
  then show ?thesis
    by (auto simp: assemble_volume_def sorted_by_instance_def split: if_splits)
next
  case (Inr ordered)
  then have o: "list_all (\<lambda>x. InstanceNumber x \<noteq> None) cts" "ordered = sort_key instance_key cts"
    by (simp_all add: sorted_by_instance_Inr_iff)
  show ?thesis
  proof (cases "hu_slices np ordered")
    case (Inl e)
    then have "map (hu_of np) ordered \<noteq> map Some v"
      using hu_slices_Inr_iff [of np ordered v] by simp
    with Inl Inr o show ?thesis by (simp add: assemble_volume_def)
  next
    case r: (Inr arrays)
    then have "map (hu_of np) ordered = map Some arrays"
      by (simp add: hu_slices_Inr_iff)
    then have "map (hu_of np) ordered = map Some v \<longleftrightarrow> v = arrays"
      by (auto simp: inj_map_eq_map)
    with r Inr o show ?thesis
      by (auto simp: assemble_volume_def np_stack_Inr_iff)
  qed
qed

lemma assemble_volume_length:
  "assemble_volume np cts = Inr v \<Longrightarrow> length v = length cts"
proof -
  assume "assemble_volume np cts = Inr v"
  then have "map (hu_of np) (sort_key instance_key cts) = map Some v"
    by (simp add: assemble_volume_Inr_iff)
  then have "length (map (hu_of np) (sort_key instance_key cts)) = length (map Some v)"
    by simp
  then show ?thesis by simp
qed

section \<open>Properties of a run\<close>

lemma other_modality_parses: "other_modality (rd p) \<Longrightarrow> parses rd p \<and> ct_at rd p = []"
  by (auto simp: other_modality_def parses_def ct_at_def is_ct_def split: option.splits)

lemma kept_other_modality: "list_all (\<lambda>p. other_modality (rd p)) ps \<Longrightarrow> list_all (parses rd) ps \<and> kept rd ps = []"
  by (induction ps) (auto simp: kept_simps other_modality_parses)

lemma display_calls:
  "display v = Inr calls \<Longrightarrow> \<exists>w i c e. calls = [Write w, Imshow i (- 1000) 400, Hist c e]"
  by (auto simp: display_def split: sum.splits prod.splits if_splits)

lemma process_Inr_iff:
  "process np u = Inr calls \<longleftrightarrow>
     zip_ok u \<and>
     (find_ct_slices u = Inr [] \<and> calls = [Error ''No CT DICOM slices found in uploaded ZIP.''] \<or>
      (\<exists>cts v. find_ct_slices u = Inr cts \<and> cts \<noteq> [] \<and> assemble_volume np cts = Inr v \<and>
         display v = Inr calls))"
  by (auto simp: process_def split: sum.splits)

lemma dp_no_ct: "dcm_paths (walk sample_upload_no_ct) = [''/tmp/t/mr.dcm'', ''/tmp/t/pt.DCM'']"
  by (simp add: sample_upload_no_ct_def dcm_paths_def str_simps)

lemma dp_sample:
  "dcm_paths (walk sample_upload) =
     [''/tmp/t/series/a.dcm'', ''/tmp/t/series/B.DCM'', ''/tmp/t/series/mr.dcm'',
      ''/tmp/t/series/c.Dcm'']"
  by (simp add: sample_upload_def dcm_paths_def str_simps)

lemma walked_paths_mem:
  "(d, ds, fs) \<in> set w \<Longrightarrow> f \<in> set fs \<Longrightarrow> path_join d f \<in> set (walked_paths w)"
  by (force simp: walked_paths_def)

lemma sort_key_perm_distinct:
  assumes "mset cts' = mset cts" "distinct (map f cts)"
  shows "sort_key f cts' = sort_key f cts"
proof (rule sort_key_inj_key_eq)
  show "mset cts' = mset (sort_key f cts)" using assms(1) by simp
  have "set cts' = set cts" using assms(1) by (rule mset_eq_setD)
  then show "inj_on f (set cts')"
    using assms(2) by (simp add: distinct_map)
  show "sorted (map f (sort_key f cts))" by simp
qed

lemma instance_number_key:
  "list_all (\<lambda>x. InstanceNumber x \<noteq> None) xs \<Longrightarrow>
     filter (\<lambda>x. InstanceNumber x = Some k) xs = filter (\<lambda>x. instance_key x = k) xs"
  by (induction xs) (auto simp: instance_key_def)

lemma sorted_by_instance_perm:
  assumes "mset cts' = mset cts" "distinct (map InstanceNumber cts)"
  shows "sorted_by_instance cts' = sorted_by_instance cts"
proof -
  have s: "set cts' = set cts" using assms(1) by (rule mset_eq_setD)
  show ?thesis
  proof (cases "list_all (\<lambda>x. InstanceNumber x \<noteq> None) cts")
    case False
    with s show ?thesis by (auto simp: sorted_by_instance_def list_all_iff)
  next
    case True
    have key: "InstanceNumber x = Some (instance_key x)" if "x \<in> set cts" for x
      using True that by (auto simp: list_all_iff instance_key_def)
    have "inj_on instance_key (set cts)"
    proof (rule inj_onI)
      fix x y assume xy: "x \<in> set cts" "y \<in> set cts" "instance_key x = instance_key y"
      then have "InstanceNumber x = InstanceNumber y"
        by (simp add: key)
      moreover from assms(2) have "inj_on InstanceNumber (set cts)"
        by (simp add: distinct_map)
      ultimately show "x = y"
        using xy(1,2) by (auto dest: inj_onD)
    qed
    moreover have "distinct cts" using assms(2) by (simp add: distinct_map)
    ultimately have "distinct (map instance_key cts)" by (simp add: distinct_map)
    with assms(1) have e: "sort_key instance_key cts' = sort_key instance_key cts"
      by (rule sort_key_perm_distinct)
    from True s show ?thesis by (simp add: sorted_by_instance_def list_all_iff e)
  qed
qed

lemma assemble_sample:
  "assemble_volume exact_numpy [slice_a, slice_b, slice_c] = Inr sample_volume"
  by (simp add: assemble_volume_def sorted_by_instance_def instance_key_def sample_defs hu_slice_def
      rescale_slope_def rescale_intercept_def array_map_def np_stack_def)

lemma find_sample: "find_ct_slices sample_upload = Inr [slice_a, slice_b, slice_c]"
  by (simp add: find_ct_slices_def sample_defs str_simps)

lemma find_sample_permuted:
  "find_ct_slices (sample_upload\<lparr>walk := [(''/tmp/t/series'', [], [''c.Dcm'', ''a.dcm'', ''B.DCM''])]\<rparr>) =
     Inr [slice_c, slice_a, slice_b]"
  by (simp add: find_ct_slices_def sample_defs str_simps)

lemma hu_slices_total:
  "list_all (\<lambda>x. pixel_array x \<noteq> None) ss \<Longrightarrow>
     hu_slices np ss = Inr (map (\<lambda>s. hu_slice np s (the (pixel_array s))) ss)"
  by (induction ss) auto

lemma assemble_volume_stack:
  assumes "list_all (\<lambda>x. InstanceNumber x \<noteq> None) cts" "list_all (\<lambda>x. pixel_array x \<noteq> None) cts"
  shows "assemble_volume np cts =
     np_stack (map (\<lambda>s. hu_slice np s (the (pixel_array s))) (sort_key instance_key cts))"
proof -
  from assms(2) have "list_all (\<lambda>x. pixel_array x \<noteq> None) (sort_key instance_key cts)"
    by (simp add: list_all_iff)
  then show ?thesis
    using assms(1) by (simp add: assemble_volume_def sorted_by_instance_def hu_slices_total)
qed

lemma pixel_shape_hu:
  "pixel_array s \<noteq> None \<Longrightarrow> pixel_shape s = Some (shape (hu_slice np s (the (pixel_array s))))"
  by (auto simp: pixel_shape_def shape_hu_slice)

lemma hu_slice_defaults:
  "RescaleSlope s = None \<Longrightarrow> RescaleIntercept s = None \<Longrightarrow>
     hu_slice np s px =
       array_map (\<lambda>p. np_add np (np_multiply np (np_astype_float32 np p) (PyInt 1)) (PyInt 0)) px"
  by (simp add: hu_slice_def rescale_slope_def rescale_intercept_def array_map_def)

lemma np_histogram_call:
  "np_histogram a 200 (- 1000, 2000) =
     Inr (map (\<lambda>i. length (filter (in_bin (linspace (- 1000) 2000 200) 200 i) a)) [0..<200],
          linspace (- 1000) 2000 200)"
  by (simp add: np_histogram_def Let_def)

lemma display_nonempty:
  "v \<noteq> [] \<Longrightarrow> imshow_accepts (shape (v ! (length v div 2))) \<Longrightarrow>
     display v =
       Inr [Write (''Displaying middle slice #'' @ str_nat (length v div 2)),
            Imshow (v ! (length v div 2)) (- 1000) 400,
            Hist (map (\<lambda>i. length (filter (in_bin (linspace (- 1000) 2000 200) 200 i) (ravel v))) [0..<200])
                 (linspace (- 1000) 2000 200)]"
  by (simp add: display_def getitem_def mid_slice_idx_def np_histogram_call)

lemma display_rejected:
  "v \<noteq> [] \<Longrightarrow> \<not> imshow_accepts (shape (v ! (length v div 2))) \<Longrightarrow>
     display v = Inl TypeError"
  by (simp add: display_def getitem_def mid_slice_idx_def)

lemma display_empty: "display [] = Inl IndexError"
  by (simp add: display_def getitem_def mid_slice_idx_def)

lemma process_display:
  assumes "zip_ok u" "find_ct_slices u = Inr cts" "cts \<noteq> []" "assemble_volume np cts = Inr v"
  shows "process np u = display v"
  using assms by (simp add: process_def)

lemma scan_files_error:
  "scan_files rd d fs acc = Inl e \<Longrightarrow> e = InvalidDicomError \<or> e = AttributeError"
  by (induction fs arbitrary: acc) (auto split: if_splits option.splits)

lemma scan_walk_error:
  "scan_walk rd w acc = Inl e \<Longrightarrow> e = InvalidDicomError \<or> e = AttributeError"
proof (induction w arbitrary: acc)
  case Nil
  then show ?case by simp
next
  case (Cons t w)
  obtain d ds fs where t: "t = (d, ds, fs)" by (cases t)
  from Cons.prems show ?case
    by (auto simp: t split: sum.splits dest: scan_files_error Cons.IH)
qed

lemma assemble_volume_error:
  "assemble_volume np cts = Inl e \<Longrightarrow> e = AttributeError \<or> e = ValueError"
  by (auto simp: assemble_volume_def sorted_by_instance_def split: if_splits sum.splits
      dest: hu_slices_error np_stack_error)

lemma process_error:
  "process np u = Inl e \<Longrightarrow>
     e = BadZipFile \<or> e = InvalidDicomError \<or> e = AttributeError \<or> e = ValueError \<or>
     e = TypeError"
proof -
  assume p: "process np u = Inl e"
  show ?thesis
  proof (cases "zip_ok u")
    case False
    with p show ?thesis by (simp add: process_def)
  next
    case True
    show ?thesis
    proof (cases "find_ct_slices u")
      case (Inl e')
      with p True have "e = e'" by (simp add: process_def)
      with Inl show ?thesis
        by (auto simp: find_ct_slices_def dest: scan_walk_error)
    next
      case (Inr cts)
      show ?thesis
      proof (cases "cts = []")
        case True
        with p Inr \<open>zip_ok u\<close> show ?thesis by (simp add: process_def)
      next
        case False
        show ?thesis
        proof (cases "assemble_volume np cts")
          case (Inl e')
          with p Inr False \<open>zip_ok u\<close> have "e = e'" by (simp add: process_def)
          with Inl show ?thesis by (auto dest: assemble_volume_error)
        next
          case v: (Inr v)
          then have "length v = length cts" by (rule assemble_volume_length)
          with False have "v \<noteq> []" by auto
          then have "(\<exists>calls. display v = Inr calls) \<or> display v = Inl TypeError"
            by (cases "imshow_accepts (shape (v ! (length v div 2)))")
               (simp_all add: display_nonempty display_rejected)
          with p Inr False v \<open>zip_ok u\<close> show ?thesis by (auto simp: process_def)
        qed
      qed
    qed
  qed
qed

section \<open>Properties of the histogram\<close>

lemma linspace_hist_edges: "linspace (- 1000) 2000 200 = hist_edges"
  by (simp add: linspace_def hist_edges_def)

lemma hist_edges_nth: "i \<le> 200 \<Longrightarrow> hist_edges ! i = - 1000 + 15 * of_nat i"
  by (simp add: hist_edges_def)

lemma length_hist_edges: "length hist_edges = 201"
  by (simp add: hist_edges_def)

lemma in_bin_Finite:
  assumes "i < 200"
  shows "in_bin hist_edges 200 i (Finite x) \<longleftrightarrow>
     - 1000 + 15 * of_nat i \<le> x \<and> (x < - 1000 + 15 * of_nat (Suc i) \<or> (i = 199 \<and> x = 2000))"
proof -
  from assms have "hist_edges ! i = - 1000 + 15 * of_nat i"
    "hist_edges ! Suc i = - 1000 + 15 * of_nat (Suc i)"
    by (simp_all add: hist_edges_nth del: of_nat_Suc)
  with assms show ?thesis
    by (auto simp: in_bin_def simp del: of_nat_Suc)
qed

lemma in_bin_bin_of:
  assumes "i < 200"
  shows "in_bin hist_edges 200 i (Finite x) \<longleftrightarrow> - 1000 \<le> x \<and> x \<le> 2000 \<and> i = bin_of x"
proof (cases "x = 2000")
  case True
  with assms show ?thesis
    by (auto simp: in_bin_Finite bin_of_def)
next
  case False
  have fl: "nat \<lfloor>(x + 1000) / 15\<rfloor> = i \<longleftrightarrow> of_nat i \<le> (x + 1000) / 15 \<and> (x + 1000) / 15 < of_nat i + 1"
    if "- 1000 \<le> x"
  proof -
    from that have "0 \<le> \<lfloor>(x + 1000) / 15\<rfloor>" by simp
    then have "nat \<lfloor>(x + 1000) / 15\<rfloor> = i \<longleftrightarrow> \<lfloor>(x + 1000) / 15\<rfloor> = int i"
      by auto
    then show ?thesis by (simp add: floor_eq_iff)
  qed
  show ?thesis
  proof (cases "- 1000 \<le> x")
    case neg: False
    with assms show ?thesis
      by (auto simp: in_bin_Finite)
  next
    case True
    from assms have "(of_nat i :: rat) < 200" by simp
    with True False fl [OF True] assms show ?thesis
      by (auto simp: in_bin_Finite bin_of_def field_simps)
  qed
qed


lemma bin_of_less: "- 1000 \<le> x \<Longrightarrow> x \<le> 2000 \<Longrightarrow> bin_of x < 200"
proof -
  assume a: "- 1000 \<le> x" "x \<le> 2000"
  show ?thesis
  proof (cases "x = 2000")
    case True
    then show ?thesis by (simp add: bin_of_def)
  next
    case False
    with a have "(x + 1000) / 15 < 200" by simp
    then have "\<lfloor>(x + 1000) / 15\<rfloor> < 200" by (simp add: floor_less_iff)
    then have "nat \<lfloor>(x + 1000) / 15\<rfloor> < 200" by linarith
    with False show ?thesis by (simp add: bin_of_def)
  qed
qed

lemma not_in_range_no_bin: "i < 200 \<Longrightarrow> \<not> in_hist_range x \<Longrightarrow> \<not> in_bin hist_edges 200 i x"
proof (cases x)
  case (Finite q)
  assume "i < 200" "\<not> in_hist_range x"
  with Finite show ?thesis
    by (auto simp: in_bin_bin_of in_hist_range_def)
qed (simp_all add: in_bin_def)

lemma sum_list_indicator:
  "sum_list (map (\<lambda>i. if i = k then 1 else 0) [0..<n]) = (if k < n then 1 else (0::nat))"
  by (induction n) auto

lemma bins_of_value:
  "sum_list (map (\<lambda>i. if in_bin hist_edges 200 i x then 1 else 0) [0..<200]) =
     (if in_hist_range x then 1 else (0::nat))"
proof (cases "in_hist_range x")
  case False
  then have eq: "map (\<lambda>i. if in_bin hist_edges 200 i x then 1 else (0::nat)) [0..<200] =
      map (\<lambda>i. 0) [0..<200]"
    by (intro map_cong) (auto simp: not_in_range_no_bin)
  show ?thesis unfolding eq using False by simp
next
  case True
  then obtain q where q: "x = Finite q" "- 1000 \<le> q" "q \<le> 2000"
    by (cases x) (auto simp: in_hist_range_def)
  then have eq: "map (\<lambda>i. if in_bin hist_edges 200 i x then 1 else (0::nat)) [0..<200] =
      map (\<lambda>i. if i = bin_of q then 1 else 0) [0..<200]"
    by (intro map_cong) (auto simp: in_bin_bin_of)
  show ?thesis unfolding eq using True q
    by (simp add: sum_list_indicator bin_of_less)
qed

lemma sum_hist_counts: "sum_list (hist_counts a) = length (filter in_hist_range a)"
proof (induction a)
  case Nil
  then show ?case by (simp add: hist_counts_def)
next
  case (Cons x a)
  have "hist_counts (x # a) =
      map (\<lambda>i. (if in_bin hist_edges 200 i x then 1 else 0) +
                length (filter (in_bin hist_edges 200 i) a)) [0..<200]"
    by (simp add: hist_counts_def)
  then have "sum_list (hist_counts (x # a)) =
      sum_list (map (\<lambda>i. if in_bin hist_edges 200 i x then 1 else 0) [0..<200]) +
      sum_list (hist_counts a)"
    by (simp only: sum_list_addf hist_counts_def)
  with Cons show ?case
    by (simp add: bins_of_value)
qed

lemma hist_counts_nth:
  "i < 200 \<Longrightarrow> hist_counts a ! i = length (filter (in_bin hist_edges 200 i) a)"
  by (simp add: hist_counts_def)

lemma np_histogram_fixed:
  "np_histogram a 200 (- 1000, 2000) = Inr (hist_counts a, hist_edges)"
  by (simp add: np_histogram_call linspace_hist_edges hist_counts_def)

lemma display_hist:
  "v \<noteq> [] \<Longrightarrow> imshow_accepts (shape (v ! (length v div 2))) \<Longrightarrow>
     display v =
       Inr [Write (''Displaying middle slice #'' @ str_nat (length v div 2)),
            Imshow (v ! (length v div 2)) (- 1000) 400,
            Hist (hist_counts (ravel v)) hist_edges]"
  by (simp add: display_nonempty linspace_hist_edges hist_counts_def)

lemma find_multiframe: "find_ct_slices sample_upload_multiframe = Inr [slice_multiframe]"
  by (simp add: find_ct_slices_def more_sample_defs str_simps)

lemma assemble_multiframe:
  "assemble_volume exact_numpy [slice_multiframe] = Inr multiframe_volume"
  by (simp add: assemble_volume_def sorted_by_instance_def instance_key_def sample_defs
      more_sample_defs hu_slice_def rescale_slope_def rescale_intercept_def array_map_def
      np_stack_def)

lemma rounding_numpy_identities:
  "np_multiply rounding_numpy x (PyInt 1) = x" "np_add rounding_numpy x (PyInt 0) = x"
  "np_astype_float32 rounding_numpy = float32_of_int"
  by (simp_all add: rounding_numpy_def exact_numpy_def split: float32.splits)

lemma hu_slice_identity:
  assumes "RescaleSlope s = None" "RescaleIntercept s = None"
    "\<forall>x. np_multiply np x (PyInt 1) = x" "\<forall>x. np_add np x (PyInt 0) = x"
  shows "hu_slice np s px = array_map (np_astype_float32 np) px"
  using assms by (simp add: hu_slice_defaults array_map_def)

lemma volume_slice_source:
  assumes "assemble_volume np cts = Inr v" "k < length v"
  shows "\<exists>s px. s \<in> set cts \<and> pixel_array s = Some px \<and> v ! k = hu_slice np s px"
proof -
  let ?o = "sort_key instance_key cts"
  from assms(1) have h: "map (hu_of np) ?o = map Some v"
    by (simp add: assemble_volume_Inr_iff)
  then have "length ?o = length v"
    by (metis length_map)
  with assms(2) have k: "k < length ?o" by simp
  from h have "map (hu_of np) ?o ! k = map Some v ! k" by simp
  with k assms(2) have "hu_of np (?o ! k) = Some (v ! k)" by simp
  then obtain px where "pixel_array (?o ! k) = Some px" "v ! k = hu_slice np (?o ! k) px"
    by (auto simp: hu_of_def)
  moreover from k have "?o ! k \<in> set cts"
    by (metis nth_mem set_sort)
  ultimately show ?thesis by blast
qed

lemma length_filter_concat:
  "length (filter P (concat xss)) = sum_list (map (\<lambda>xs. length (filter P xs)) xss)"
  by (induction xss) simp_all

lemma length_ravel: "length (ravel v) = sum_list (map (\<lambda>a. length (flat a)) v)"
  by (simp add: ravel_def length_concat comp_def)

lemma filter_ravel:
  "length (filter P (ravel v)) = sum_list (map (\<lambda>a. length (filter P (flat a))) v)"
  by (simp add: ravel_def length_filter_concat comp_def)

lemma display_Inr_iff:
  "display v = Inr calls \<longleftrightarrow>
     v \<noteq> [] \<and> imshow_accepts (shape (v ! (length v div 2))) \<and>
     calls = [Write (''Displaying middle slice #'' @ str_nat (length v div 2)),
              Imshow (v ! (length v div 2)) (- 1000) 400,
              Hist (hist_counts (ravel v)) hist_edges]"
proof (cases "v = []")
  case True
  then show ?thesis by (simp add: display_empty)
next
  case False
  then show ?thesis
    by (cases "imshow_accepts (shape (v ! (length v div 2)))")
       (auto simp: display_hist display_rejected)
qed

lemma hist_counts_slices:
  "i < 200 \<Longrightarrow>
     hist_counts (ravel v) ! i =
       sum_list (map (\<lambda>a. length (filter (in_bin hist_edges 200 i) (flat a))) v)"
  by (simp add: hist_counts_nth filter_ravel)

section \<open>The claims\<close>

subsection \<open>C1: the order of the slices\<close>

text \<open>
  C1. When the volume is assembled, its slices are the HU arrays of the kept datasets
  taken in ascending order of InstanceNumber: the ordered list is a permutation of the
  kept list, its keys ascend, and the datasets of any one InstanceNumber stand in it in
  the order in which they were discovered (the sort is stable). The order of discovery
  does not otherwise matter: when the InstanceNumbers are pairwise different, any
  rearrangement of the discovered datasets assembles the same volume, and two uploads
  whose scans find the same datasets in different orders give the same run.
\<close>

theorem volume_in_instance_order:
  "(assemble_volume np cts = Inr v \<longrightarrow>
      (\<exists>ordered. map (hu_of np) ordered = map Some v \<and>
         (\<forall>x\<in>set ordered. InstanceNumber x = Some (instance_key x)) \<and>
         sorted (map instance_key ordered) \<and>
         mset ordered = mset cts \<and>
         (\<forall>k. filter (\<lambda>x. InstanceNumber x = Some k) ordered =
               filter (\<lambda>x. InstanceNumber x = Some k) cts))) \<and>
   (mset cts' = mset cts \<and> distinct (map InstanceNumber cts) \<longrightarrow>
      assemble_volume np cts' = assemble_volume np cts) \<and>
   (zip_ok u' = zip_ok u \<and> find_ct_slices u = Inr cts \<and> find_ct_slices u' = Inr cts' \<and>
    mset cts' = mset cts \<and> distinct (map InstanceNumber cts) \<longrightarrow>
      process np u' = process np u)"
proof (intro conjI impI)
  assume a: "assemble_volume np cts = Inr v"
  let ?o = "sort_key instance_key cts"
  from a have n: "list_all (\<lambda>x. InstanceNumber x \<noteq> None) cts"
    and h: "map (hu_of np) ?o = map Some v"
    by (simp_all add: assemble_volume_Inr_iff)
  from n have n': "list_all (\<lambda>x. InstanceNumber x \<noteq> None) ?o"
    by (simp add: list_all_iff)
  have "filter (\<lambda>x. InstanceNumber x = Some k) ?o = filter (\<lambda>x. InstanceNumber x = Some k) cts" for k
    by (simp add: instance_number_key [OF n] instance_number_key [OF n'] sort_key_stable)
  moreover from n' have "\<forall>x\<in>set ?o. InstanceNumber x = Some (instance_key x)"
    by (auto simp: list_all_iff instance_key_def)
  ultimately show "\<exists>ordered. map (hu_of np) ordered = map Some v \<and>
         (\<forall>x\<in>set ordered. InstanceNumber x = Some (instance_key x)) \<and>
         sorted (map instance_key ordered) \<and>
         mset ordered = mset cts \<and>
         (\<forall>k. filter (\<lambda>x. InstanceNumber x = Some k) ordered =
               filter (\<lambda>x. InstanceNumber x = Some k) cts)"
    using h by (intro exI [of _ ?o]) simp
next
  assume "mset cts' = mset cts \<and> distinct (map InstanceNumber cts)"
  then have "sorted_by_instance cts' = sorted_by_instance cts"
    by (intro sorted_by_instance_perm) simp_all
  then show "assemble_volume np cts' = assemble_volume np cts"
    by (simp add: assemble_volume_def)
next
  assume a: "zip_ok u' = zip_ok u \<and> find_ct_slices u = Inr cts \<and> find_ct_slices u' = Inr cts' \<and>
    mset cts' = mset cts \<and> distinct (map InstanceNumber cts)"
  then have "sorted_by_instance cts' = sorted_by_instance cts"
    by (intro sorted_by_instance_perm) simp_all
  then have "assemble_volume np cts' = assemble_volume np cts"
    by (simp add: assemble_volume_def)
  moreover from a have "size (mset cts') = size (mset cts)"
    by simp
  then have "length cts' = length cts"
    by simp
  ultimately show "process np u' = process np u"
    using a by (simp add: process_def)
qed

theorem volume_in_instance_order_witness:
  "assemble_volume exact_numpy [slice_a, slice_b, slice_c] = Inr sample_volume \<and>
   (\<exists>ordered. map (hu_of exact_numpy) ordered = map Some sample_volume \<and>
      sorted (map instance_key ordered) \<and>
      mset ordered = mset [slice_a, slice_b, slice_c]) \<and>
   mset [slice_c, slice_a, slice_b] = mset [slice_a, slice_b, slice_c] \<and>
   distinct (map InstanceNumber [slice_a, slice_b, slice_c]) \<and>
   assemble_volume exact_numpy [slice_c, slice_a, slice_b] = Inr sample_volume \<and>
   find_ct_slices sample_upload = Inr [slice_a, slice_b, slice_c] \<and>
   find_ct_slices (sample_upload\<lparr>walk := [(''/tmp/t/series'', [], [''c.Dcm'', ''a.dcm'', ''B.DCM''])]\<rparr>) =
     Inr [slice_c, slice_a, slice_b] \<and>
   process exact_numpy
     (sample_upload\<lparr>walk := [(''/tmp/t/series'', [], [''c.Dcm'', ''a.dcm'', ''B.DCM''])]\<rparr>) =
   process exact_numpy sample_upload"
proof -
  let ?u' = "sample_upload\<lparr>walk := [(''/tmp/t/series'', [], [''c.Dcm'', ''a.dcm'', ''B.DCM''])]\<rparr>"
  have m: "mset [slice_c, slice_a, slice_b] = mset [slice_a, slice_b, slice_c]"
    by (simp add: add_mset_commute)
  have d: "distinct (map InstanceNumber [slice_a, slice_b, slice_c])"
    by (simp add: sample_defs)
  have z: "zip_ok ?u' = zip_ok sample_upload"
    by simp
  note t = volume_in_instance_order [of exact_numpy "[slice_a, slice_b, slice_c]" sample_volume
      "[slice_c, slice_a, slice_b]" ?u' sample_upload]
  from t assemble_sample have 1: "\<exists>ordered. map (hu_of exact_numpy) ordered = map Some sample_volume \<and>
      sorted (map instance_key ordered) \<and>
      mset ordered = mset [slice_a, slice_b, slice_c]"
    by blast
  from t m d have 2: "assemble_volume exact_numpy [slice_c, slice_a, slice_b] =
      assemble_volume exact_numpy [slice_a, slice_b, slice_c]"
    by blast
  from t z find_sample find_sample_permuted m d
  have 3: "process exact_numpy ?u' = process exact_numpy sample_upload"
    by blast
  from 1 2 3 m d assemble_sample find_sample find_sample_permuted show ?thesis
    by simp
qed

subsection \<open>C2: the rescale formula\<close>

text \<open>
  C2. For a slice with RescaleSlope \<open>S\<close> and RescaleIntercept \<open>I\<close>, the HU value at
  every position is the float32 sum of the float32 product of the converted pixel and
  \<open>S\<close>, and \<open>I\<close>: the pixel value is converted to float32 first, the product is
  taken next and the sum last, each by numpy's own operation, whose result is taken as it
  is. The HU array has the shape and the number of elements of the pixel array, and every
  slice of an assembled volume is the HU array of a kept dataset's pixel data.
\<close>

theorem hu_value_formula:
  "(RescaleSlope s = Some S \<and> RescaleIntercept s = Some I \<and> i < length (flat px) \<longrightarrow>
      flat (hu_slice np s px) ! i =
        np_add np (np_multiply np (np_astype_float32 np (flat px ! i)) (DSfloat S)) (DSfloat I)) \<and>
   (i < length (flat px) \<longrightarrow>
      flat (hu_slice np s px) ! i =
        np_add np (np_multiply np (np_astype_float32 np (flat px ! i)) (rescale_slope s))
          (rescale_intercept s)) \<and>
   length (flat (hu_slice np s px)) = length (flat px) \<and>
   shape (hu_slice np s px) = shape px \<and>
   (pixel_array s = Some px \<longrightarrow> hu_of np s = Some (hu_slice np s px)) \<and>
   (assemble_volume np cts = Inr v \<and> k < length v \<longrightarrow>
      (\<exists>s' px'. s' \<in> set cts \<and> pixel_array s' = Some px' \<and> v ! k = hu_slice np s' px'))"
proof (intro conjI impI)
  assume "assemble_volume np cts = Inr v \<and> k < length v"
  then have "assemble_volume np cts = Inr v" "k < length v" by simp_all
  then show "\<exists>s' px'. s' \<in> set cts \<and> pixel_array s' = Some px' \<and> v ! k = hu_slice np s' px'"
    by (rule volume_slice_source)
qed (simp_all add: hu_slice_def array_map_def rescale_slope_def rescale_intercept_def hu_of_def)

theorem hu_value_formula_witness:
  "RescaleSlope slice_c = Some (Finite 2) \<and> RescaleIntercept slice_c = Some (Finite (- 1024)) \<and>
   pixel_array slice_c = Some \<lparr>shape = [1, 2], flat = [512, 5000]\<rparr> \<and>
   (1 :: nat) < length (flat \<lparr>shape = [1, 2], flat = [512 :: int, 5000]\<rparr>) \<and>
   np_add exact_numpy (np_multiply exact_numpy (np_astype_float32 exact_numpy 5000)
     (DSfloat (Finite 2))) (DSfloat (Finite (- 1024))) = Finite 8976 \<and>
   flat (hu_slice exact_numpy slice_c \<lparr>shape = [1, 2], flat = [512, 5000]\<rparr>) ! 1 = Finite 8976 \<and>
   hu_of exact_numpy slice_c = Some \<lparr>shape = [1, 2], flat = [Finite 0, Finite 8976]\<rparr> \<and>
   assemble_volume exact_numpy [slice_a, slice_b, slice_c] = Inr sample_volume \<and>
   (1 :: nat) < length sample_volume \<and>
   (\<exists>s' px'. s' \<in> set [slice_a, slice_b, slice_c] \<and> pixel_array s' = Some px' \<and>
      sample_volume ! 1 = hu_slice exact_numpy s' px')"
proof -
  let ?px = "\<lparr>shape = [1, 2], flat = [512 :: int, 5000]\<rparr>"
  have h: "RescaleSlope slice_c = Some (Finite 2) \<and>
      RescaleIntercept slice_c = Some (Finite (- 1024)) \<and> (1 :: nat) < length (flat ?px)"
    by (simp add: slice_c_def)
  have p: "pixel_array slice_c = Some ?px"
    by (simp add: slice_c_def)
  have v: "np_add exact_numpy (np_multiply exact_numpy (np_astype_float32 exact_numpy 5000)
     (DSfloat (Finite 2))) (DSfloat (Finite (- 1024))) = Finite 8976"
    by (simp add: exact_numpy_def)
  have v0: "np_add exact_numpy (np_multiply exact_numpy (np_astype_float32 exact_numpy 512)
     (DSfloat (Finite 2))) (DSfloat (Finite (- 1024))) = Finite 0"
    by (simp add: exact_numpy_def)
  note t = hu_value_formula [of slice_c "Finite 2" "Finite (- 1024)" 1 ?px exact_numpy
      "[slice_a, slice_b, slice_c]" sample_volume 1]
  note t0 = hu_value_formula [of slice_c "Finite 2" "Finite (- 1024)" 0 ?px exact_numpy
      "[]" "[]" 0]
  from t [THEN conjunct1] h
  have 1: "flat (hu_slice exact_numpy slice_c ?px) ! 1 = Finite 8976"
    by (simp add: v)
  from t0 [THEN conjunct1] h
  have 0: "flat (hu_slice exact_numpy slice_c ?px) ! 0 = Finite 0"
    by (simp add: v0)
  from t [THEN conjunct2, THEN conjunct2, THEN conjunct1]
  have l: "length (flat (hu_slice exact_numpy slice_c ?px)) = 2"
    by simp
  from t [THEN conjunct2, THEN conjunct2, THEN conjunct2, THEN conjunct1]
  have sh: "shape (hu_slice exact_numpy slice_c ?px) = [1, 2]"
    by simp
  from l 0 1 have f: "flat (hu_slice exact_numpy slice_c ?px) = [Finite 0, Finite 8976]"
    by (cases "flat (hu_slice exact_numpy slice_c ?px)";
        cases "tl (flat (hu_slice exact_numpy slice_c ?px))") auto
  from t [THEN conjunct2, THEN conjunct2, THEN conjunct2, THEN conjunct2, THEN conjunct1] p
  have "hu_of exact_numpy slice_c = Some (hu_slice exact_numpy slice_c ?px)"
    by simp
  with f sh have 2: "hu_of exact_numpy slice_c = Some \<lparr>shape = [1, 2], flat = [Finite 0, Finite 8976]\<rparr>"
    by (cases "hu_slice exact_numpy slice_c ?px") simp
  have k: "(1 :: nat) < length sample_volume"
    by (simp add: sample_volume_def)
  from t [THEN conjunct2, THEN conjunct2, THEN conjunct2, THEN conjunct2, THEN conjunct2]
    assemble_sample k
  have 3: "\<exists>s' px'. s' \<in> set [slice_a, slice_b, slice_c] \<and> pixel_array s' = Some px' \<and>
      sample_volume ! 1 = hu_slice exact_numpy s' px'"
    by (elim impE) (intro conjI, assumption+)
  from h p v 1 2 assemble_sample k 3 show ?thesis by (intro conjI) simp_all
qed

subsection \<open>C3: the rescale defaults\<close>

text \<open>
  C3. A dataset without the RescaleSlope tag is rescaled with the slope 1, and one without
  the RescaleIntercept tag with the intercept 0. With both tags absent every HU value is
  the float32 made of the raw pixel value, multiplied by 1 and increased by 0; as
  multiplying a float32 by 1 and adding 0 to it give the float32 back, the HU array is the
  pixel array converted to float32. Where the conversion is the one IEEE 754 fixes, a
  pixel value of magnitude at most \<open>2 ^ 24\<close> is its own float32, so the HU value is
  the raw pixel value, and an array of such values comes back unchanged. Beyond that
  magnitude the conversion rounds: the pixel value \<open>2 ^ 24 + 1\<close> of a 32-bit image
  gives the HU value \<open>2 ^ 24\<close>.
\<close>

theorem rescale_defaults_float32:
  "(RescaleSlope s = None \<longrightarrow> rescale_slope s = PyInt 1) \<and>
   (RescaleIntercept s = None \<longrightarrow> rescale_intercept s = PyInt 0) \<and>
   (RescaleSlope s = None \<and> RescaleIntercept s = None \<and>
    (\<forall>x. np_multiply np x (PyInt 1) = x) \<and> (\<forall>x. np_add np x (PyInt 0) = x) \<longrightarrow>
      hu_slice np s px = array_map (np_astype_float32 np) px \<and>
      (np_astype_float32 np = float32_of_int \<longrightarrow>
         (\<forall>i<length (flat px). \<bar>flat px ! i\<bar> \<le> 2 ^ 24 \<longrightarrow>
            flat (hu_slice np s px) ! i = Finite (of_int (flat px ! i))) \<and>
         ((\<forall>p\<in>set (flat px). \<bar>p\<bar> \<le> 2 ^ 24) \<longrightarrow>
            hu_slice np s px = array_map (\<lambda>p. Finite (of_int p)) px))) \<and>
   (\<bar>p\<bar> \<le> 2 ^ 24 \<longrightarrow> float32_of_int p = Finite (of_int p))"
proof (intro conjI impI allI)
  assume "RescaleSlope s = None"
  then show "rescale_slope s = PyInt 1" by (simp add: rescale_slope_def)
next
  assume "RescaleIntercept s = None"
  then show "rescale_intercept s = PyInt 0" by (simp add: rescale_intercept_def)
next
  assume "\<bar>p\<bar> \<le> 2 ^ 24"
  then show "float32_of_int p = Finite (of_int p)" by (rule float32_of_int_exact)
next
  assume a: "RescaleSlope s = None \<and> RescaleIntercept s = None \<and>
    (\<forall>x. np_multiply np x (PyInt 1) = x) \<and> (\<forall>x. np_add np x (PyInt 0) = x)"
  then show h: "hu_slice np s px = array_map (np_astype_float32 np) px"
    by (intro hu_slice_identity) simp_all
  {
    assume c: "np_astype_float32 np = float32_of_int"
    {
      fix i assume "i < length (flat px)" "\<bar>flat px ! i\<bar> \<le> 2 ^ 24"
      then show "flat (hu_slice np s px) ! i = Finite (of_int (flat px ! i))"
        by (simp add: h c array_map_def float32_of_int_exact)
    }
    {
      assume "\<forall>p\<in>set (flat px). \<bar>p\<bar> \<le> 2 ^ 24"
      then have "map float32_of_int (flat px) = map (\<lambda>p. Finite (of_int p)) (flat px)"
        by (intro map_cong) (simp_all add: float32_of_int_exact)
      then show "hu_slice np s px = array_map (\<lambda>p. Finite (of_int p)) px"
        by (simp add: h c array_map_def)
    }
  }
qed

theorem rescale_defaults_float32_witness:
  "RescaleSlope slice_a = None \<and> RescaleIntercept slice_a = None \<and>
   (\<forall>x. np_multiply rounding_numpy x (PyInt 1) = x) \<and>
   (\<forall>x. np_add rounding_numpy x (PyInt 0) = x) \<and>
   np_astype_float32 rounding_numpy = float32_of_int \<and>
   rescale_slope slice_a = PyInt 1 \<and> rescale_intercept slice_a = PyInt 0 \<and>
   \<bar>- 2000 :: int\<bar> \<le> 2 ^ 24 \<and> \<bar>0 :: int\<bar> \<le> 2 ^ 24 \<and>
   float32_of_int (- 2000) = Finite (- 2000) \<and>
   hu_slice rounding_numpy slice_a \<lparr>shape = [1, 2], flat = [- 2000, 0]\<rparr> =
     \<lparr>shape = [1, 2], flat = [Finite (- 2000), Finite 0]\<rparr>"
proof -
  let ?px = "\<lparr>shape = [1, 2], flat = [- 2000 :: int, 0]\<rparr>"
  have t: "RescaleSlope slice_a = None \<and> RescaleIntercept slice_a = None"
    by (simp add: slice_a_def)
  have m: "\<forall>x. np_multiply rounding_numpy x (PyInt 1) = x"
    and a: "\<forall>x. np_add rounding_numpy x (PyInt 0) = x"
    and c: "np_astype_float32 rounding_numpy = float32_of_int"
    by (simp_all add: rounding_numpy_identities)
  have b: "\<forall>p\<in>set (flat ?px). \<bar>p\<bar> \<le> 2 ^ 24"
    by simp
  note r = rescale_defaults_float32 [of slice_a rounding_numpy ?px "- 2000"]
  from r [THEN conjunct1] r [THEN conjunct2, THEN conjunct1] t
  have 1: "rescale_slope slice_a = PyInt 1 \<and> rescale_intercept slice_a = PyInt 0"
    by simp
  from r [THEN conjunct2, THEN conjunct2, THEN conjunct1] t m a
  have "np_astype_float32 rounding_numpy = float32_of_int \<longrightarrow>
      ((\<forall>p\<in>set (flat ?px). \<bar>p\<bar> \<le> 2 ^ 24) \<longrightarrow>
        hu_slice rounding_numpy slice_a ?px = array_map (\<lambda>p. Finite (of_int p)) ?px)"
    by blast
  with c b have "hu_slice rounding_numpy slice_a ?px = array_map (\<lambda>p. Finite (of_int p)) ?px"
    by blast
  then have 2: "hu_slice rounding_numpy slice_a ?px =
      \<lparr>shape = [1, 2], flat = [Finite (- 2000), Finite 0]\<rparr>"
    by (simp add: array_map_def)
  from r [THEN conjunct2, THEN conjunct2, THEN conjunct2]
  have 3: "float32_of_int (- 2000) = Finite (- 2000)"
    by simp
  from t m a c 1 2 3 show ?thesis by (intro conjI) simp_all
qed

theorem rescale_defaults_counterexample:
  "RescaleSlope slice_wide = None \<and> RescaleIntercept slice_wide = None \<and>
   pixel_array slice_wide = Some \<lparr>shape = [1, 1], flat = [16777217]\<rparr> \<and>
   np_astype_float32 rounding_numpy 16777217 = Finite 16777216 \<and>
   np_multiply rounding_numpy (Finite 16777216) (PyInt 1) = Finite 16777216 \<and>
   np_add rounding_numpy (Finite 16777216) (PyInt 0) = Finite 16777216 \<and>
   hu_of rounding_numpy slice_wide = Some \<lparr>shape = [1, 1], flat = [Finite 16777216]\<rparr> \<and>
   Finite 16777216 \<noteq> Finite 16777217"
  by (simp add: hu_of_def hu_slice_def array_map_def rescale_slope_def rescale_intercept_def
      slice_wide_def rounding_numpy_def exact_numpy_def float32_of_int_wide)

subsection \<open>C4: the displayed slice\<close>

text \<open>
  C4. The index of the displayed slice is the number of slices of the volume divided by
  two, rounded down: 5 for ten slices and 5 for eleven. For a volume of at least one slice
  the slice selected is the one at that index of the first axis. The display branch
  returns exactly when that slice has a shape \<^verbatim>\<open>imshow\<close> takes, and it has then written
  the index, drawn that slice and drawn the histogram; on any other shape (multi-frame
  pixel data) it ends in the TypeError of \<^verbatim>\<open>imshow\<close>. The run does the same for the
  volume assembled from the kept datasets.
\<close>

theorem middle_slice_displayed:
  "mid_slice_idx v = length v div 2 \<and>
   (length v = 10 \<longrightarrow> mid_slice_idx v = 5) \<and>
   (length v = 11 \<longrightarrow> mid_slice_idx v = 5) \<and>
   (v \<noteq> [] \<longrightarrow> getitem v (mid_slice_idx v) = Inr (v ! (length v div 2))) \<and>
   (display v = Inr calls \<longleftrightarrow>
      v \<noteq> [] \<and> imshow_accepts (shape (v ! (length v div 2))) \<and>
      calls = [Write (''Displaying middle slice #'' @ str_nat (length v div 2)),
               Imshow (v ! (length v div 2)) (- 1000) 400,
               Hist (hist_counts (ravel v)) hist_edges]) \<and>
   (v \<noteq> [] \<and> \<not> imshow_accepts (shape (v ! (length v div 2))) \<longrightarrow>
      display v = Inl TypeError) \<and>
   (zip_ok u \<and> find_ct_slices u = Inr cts \<and> cts \<noteq> [] \<and> assemble_volume np cts = Inr v \<and>
    imshow_accepts (shape (v ! (length cts div 2))) \<longrightarrow>
      process np u =
        Inr [Write (''Displaying middle slice #'' @ str_nat (length cts div 2)),
             Imshow (v ! (length cts div 2)) (- 1000) 400,
             Hist (hist_counts (ravel v)) hist_edges]) \<and>
   (zip_ok u \<and> find_ct_slices u = Inr cts \<and> cts \<noteq> [] \<and> assemble_volume np cts = Inr v \<and>
    \<not> imshow_accepts (shape (v ! (length cts div 2))) \<longrightarrow>
      process np u = Inl TypeError)"
proof (intro conjI impI)
  show "mid_slice_idx v = length v div 2" by (simp add: mid_slice_idx_def)
next
  assume "length v = 10" then show "mid_slice_idx v = 5" by (simp add: mid_slice_idx_def)
next
  assume "length v = 11" then show "mid_slice_idx v = 5" by (simp add: mid_slice_idx_def)
next
  assume "v \<noteq> []"
  then show "getitem v (mid_slice_idx v) = Inr (v ! (length v div 2))"
    by (simp add: getitem_def mid_slice_idx_def)
next
  show "display v = Inr calls \<longleftrightarrow>
      v \<noteq> [] \<and> imshow_accepts (shape (v ! (length v div 2))) \<and>
      calls = [Write (''Displaying middle slice #'' @ str_nat (length v div 2)),
               Imshow (v ! (length v div 2)) (- 1000) 400,
               Hist (hist_counts (ravel v)) hist_edges]"
    by (rule display_Inr_iff)
next
  assume "v \<noteq> [] \<and> \<not> imshow_accepts (shape (v ! (length v div 2)))"
  then show "display v = Inl TypeError" by (simp add: display_rejected)
next
  assume a: "zip_ok u \<and> find_ct_slices u = Inr cts \<and> cts \<noteq> [] \<and>
    assemble_volume np cts = Inr v \<and> imshow_accepts (shape (v ! (length cts div 2)))"
  then have l: "length v = length cts" by (auto dest: assemble_volume_length)
  with a have "v \<noteq> []" by auto
  moreover from a have "process np u = display v" by (simp add: process_display)
  ultimately show "process np u =
        Inr [Write (''Displaying middle slice #'' @ str_nat (length cts div 2)),
             Imshow (v ! (length cts div 2)) (- 1000) 400,
             Hist (hist_counts (ravel v)) hist_edges]"
    using a l by (simp add: display_hist)
next
  assume a: "zip_ok u \<and> find_ct_slices u = Inr cts \<and> cts \<noteq> [] \<and>
    assemble_volume np cts = Inr v \<and> \<not> imshow_accepts (shape (v ! (length cts div 2)))"
  then have l: "length v = length cts" by (auto dest: assemble_volume_length)
  with a have "v \<noteq> []" by auto
  moreover from a have "process np u = display v" by (simp add: process_display)
  ultimately show "process np u = Inl TypeError"
    using a l by (simp add: display_rejected)
qed

theorem middle_slice_displayed_witness:
  "zip_ok sample_upload \<and> find_ct_slices sample_upload = Inr [slice_a, slice_b, slice_c] \<and>
   [slice_a, slice_b, slice_c] \<noteq> [] \<and>
   assemble_volume exact_numpy [slice_a, slice_b, slice_c] = Inr sample_volume \<and>
   sample_volume \<noteq> [] \<and>
   imshow_accepts (shape (sample_volume ! (length [slice_a, slice_b, slice_c] div 2))) \<and>
   getitem sample_volume (mid_slice_idx sample_volume) =
     Inr \<lparr>shape = [1, 2], flat = [Finite 0, Finite 8976]\<rparr> \<and>
   process exact_numpy sample_upload =
     Inr [Write ''Displaying middle slice #1'',
          Imshow \<lparr>shape = [1, 2], flat = [Finite 0, Finite 8976]\<rparr> (- 1000) 400,
          Hist (hist_counts (ravel sample_volume)) hist_edges] \<and>
   display sample_volume =
     Inr [Write ''Displaying middle slice #1'',
          Imshow \<lparr>shape = [1, 2], flat = [Finite 0, Finite 8976]\<rparr> (- 1000) 400,
          Hist (hist_counts (ravel sample_volume)) hist_edges] \<and>
   zip_ok sample_upload_multiframe \<and>
   find_ct_slices sample_upload_multiframe = Inr [slice_multiframe] \<and>
   assemble_volume exact_numpy [slice_multiframe] = Inr multiframe_volume \<and>
   multiframe_volume \<noteq> [] \<and>
   \<not> imshow_accepts (shape (multiframe_volume ! (length [slice_multiframe] div 2))) \<and>
   display multiframe_volume = Inl TypeError \<and>
   process exact_numpy sample_upload_multiframe = Inl TypeError \<and>
   length (replicate 10 (hd sample_volume)) = 10 \<and>
   mid_slice_idx (replicate 10 (hd sample_volume)) = 5 \<and>
   length (replicate 11 (hd sample_volume)) = 11 \<and>
   mid_slice_idx (replicate 11 (hd sample_volume)) = 5"
proof -
  let ?cts = "[slice_a, slice_b, slice_c]"
  let ?calls = "[Write (''Displaying middle slice #'' @ str_nat (length sample_volume div 2)),
      Imshow (sample_volume ! (length sample_volume div 2)) (- 1000) 400,
      Hist (hist_counts (ravel sample_volume)) hist_edges]"
  have z: "zip_ok sample_upload" by (simp add: sample_upload_def)
  have n: "?cts \<noteq> []" by simp
  have sv: "sample_volume \<noteq> []" by (simp add: sample_volume_def)
  have ac: "imshow_accepts (shape (sample_volume ! (length ?cts div 2)))"
    by (simp add: sample_volume_def imshow_accepts_def)
  have ac': "imshow_accepts (shape (sample_volume ! (length sample_volume div 2)))"
    by (simp add: sample_volume_def imshow_accepts_def)
  have mid: "sample_volume ! (length sample_volume div 2) =
      \<lparr>shape = [1, 2], flat = [Finite 0, Finite 8976]\<rparr>"
    "sample_volume ! (length ?cts div 2) = \<lparr>shape = [1, 2], flat = [Finite 0, Finite 8976]\<rparr>"
    by (simp_all add: sample_volume_def)
  have wr: "''Displaying middle slice #'' @ str_nat (length sample_volume div 2) =
      ''Displaying middle slice #1''"
    "''Displaying middle slice #'' @ str_nat (length ?cts div 2) = ''Displaying middle slice #1''"
    by (simp_all add: sample_volume_def str_nat.simps digit_def)
  note t = middle_slice_displayed [of sample_volume ?calls sample_upload ?cts exact_numpy]
  from t [THEN conjunct2, THEN conjunct2, THEN conjunct2, THEN conjunct1] sv
  have g: "getitem sample_volume (mid_slice_idx sample_volume) =
      Inr (sample_volume ! (length sample_volume div 2))"
    by (rule mp)
  from t [THEN conjunct2, THEN conjunct2, THEN conjunct2, THEN conjunct2, THEN conjunct1] sv ac' have "display sample_volume = Inr ?calls"
    by blast
  then have d: "display sample_volume =
     Inr [Write ''Displaying middle slice #1'',
          Imshow \<lparr>shape = [1, 2], flat = [Finite 0, Finite 8976]\<rparr> (- 1000) 400,
          Hist (hist_counts (ravel sample_volume)) hist_edges]"
    by (simp only: mid wr)
  from t [THEN conjunct2, THEN conjunct2, THEN conjunct2, THEN conjunct2, THEN conjunct2,
      THEN conjunct2, THEN conjunct1] z find_sample n assemble_sample ac
  have "process exact_numpy sample_upload =
      Inr [Write (''Displaying middle slice #'' @ str_nat (length ?cts div 2)),
           Imshow (sample_volume ! (length ?cts div 2)) (- 1000) 400,
           Hist (hist_counts (ravel sample_volume)) hist_edges]"
    by blast
  then have p: "process exact_numpy sample_upload =
     Inr [Write ''Displaying middle slice #1'',
          Imshow \<lparr>shape = [1, 2], flat = [Finite 0, Finite 8976]\<rparr> (- 1000) 400,
          Hist (hist_counts (ravel sample_volume)) hist_edges]"
    by (simp only: mid wr)
  have zm: "zip_ok sample_upload_multiframe" by (simp add: sample_upload_multiframe_def)
  have nm: "[slice_multiframe] \<noteq> []" by simp
  have mv: "multiframe_volume \<noteq> []" by (simp add: multiframe_volume_def)
  have rj: "\<not> imshow_accepts (shape (multiframe_volume ! (length [slice_multiframe] div 2)))"
    by (simp add: multiframe_volume_def imshow_accepts_def)
  have rj': "\<not> imshow_accepts (shape (multiframe_volume ! (length multiframe_volume div 2)))"
    by (simp add: multiframe_volume_def imshow_accepts_def)
  note tm = middle_slice_displayed [of multiframe_volume "[]" sample_upload_multiframe
      "[slice_multiframe]" exact_numpy]
  from tm [THEN conjunct2, THEN conjunct2, THEN conjunct2, THEN conjunct2, THEN conjunct2, THEN conjunct1] mv rj' have dm: "display multiframe_volume = Inl TypeError"
    by blast
  from tm [THEN conjunct2, THEN conjunct2, THEN conjunct2, THEN conjunct2, THEN conjunct2,
      THEN conjunct2, THEN conjunct2] zm find_multiframe nm assemble_multiframe rj
  have pm: "process exact_numpy sample_upload_multiframe = Inl TypeError"
    by blast
  have 2: "mid_slice_idx (replicate 10 (hd sample_volume)) = 5"
    using middle_slice_displayed [of "replicate 10 (hd sample_volume)" "[]" sample_upload "[]"
        exact_numpy, THEN conjunct2, THEN conjunct1]
    by simp
  have 3: "mid_slice_idx (replicate 11 (hd sample_volume)) = 5"
    using middle_slice_displayed [of "replicate 11 (hd sample_volume)" "[]" sample_upload "[]"
        exact_numpy, THEN conjunct2, THEN conjunct2, THEN conjunct1]
    by simp
  from g have g': "getitem sample_volume (mid_slice_idx sample_volume) =
     Inr \<lparr>shape = [1, 2], flat = [Finite 0, Finite 8976]\<rparr>"
    by (simp only: mid)
  show ?thesis
    by (intro conjI z find_sample n assemble_sample sv ac g' p d zm find_multiframe
        assemble_multiframe mv rj dm pm 2 3) simp_all
qed

subsection \<open>C5: no CT slice\<close>

text \<open>
  C5. When the archive extracts and every \<^verbatim>\<open>.dcm\<close> file parses to a dataset that has
  a Modality which, uppercased, is not CT, and more generally whenever the scan ends
  having kept no record,
  the run makes exactly one call on the page, the error message
  \<^verbatim>\<open>No CT DICOM slices found in uploaded ZIP.\<close>, and draws neither the image nor the
  histogram. It is the only handled error: a run that ends without an exception and shows
  an error message shows this one, alone, after a scan that kept nothing; every other run
  that ends without an exception is the three calls of the display branch.
\<close>

theorem no_ct_error_only:
  "(zip_ok u \<and> list_all (\<lambda>p. other_modality (dcmread u p)) (dcm_paths (walk u)) \<longrightarrow>
      process np u = Inr [Error ''No CT DICOM slices found in uploaded ZIP.'']) \<and>
   (zip_ok u \<and> find_ct_slices u = Inr [] \<longrightarrow>
      process np u = Inr [Error ''No CT DICOM slices found in uploaded ZIP.''] \<and>
      app np (Some u) =
        Inr [Title ''CT Slice Viewer + HU Histogram'',
             Error ''No CT DICOM slices found in uploaded ZIP.'']) \<and>
   (process np u = Inr calls \<and> Error m \<in> set calls \<longrightarrow>
      m = ''No CT DICOM slices found in uploaded ZIP.'' \<and> calls = [Error m] \<and>
      find_ct_slices u = Inr []) \<and>
   (process np u = Inr calls \<longrightarrow>
      calls = [Error ''No CT DICOM slices found in uploaded ZIP.''] \<or>
      (\<exists>w i c e. calls = [Write w, Imshow i (- 1000) 400, Hist c e]))"
proof (intro conjI impI)
  assume a: "zip_ok u \<and> list_all (\<lambda>p. other_modality (dcmread u p)) (dcm_paths (walk u))"
  then have "find_ct_slices u = Inr []"
    using kept_other_modality [of "dcmread u" "dcm_paths (walk u)"]
    by (simp add: find_ct_slices_Inr_iff)
  with a show "process np u = Inr [Error ''No CT DICOM slices found in uploaded ZIP.'']"
    by (simp add: process_def)
next
  assume a: "zip_ok u \<and> find_ct_slices u = Inr []"
  then show "process np u = Inr [Error ''No CT DICOM slices found in uploaded ZIP.'']"
    by (simp add: process_def)
  then show "app np (Some u) =
        Inr [Title ''CT Slice Viewer + HU Histogram'',
             Error ''No CT DICOM slices found in uploaded ZIP.'']"
    by (simp add: app_def)
next
  assume a: "process np u = Inr calls \<and> Error m \<in> set calls"
  then have "find_ct_slices u = Inr [] \<and> calls = [Error ''No CT DICOM slices found in uploaded ZIP.'']"
    by (auto simp: process_Inr_iff dest!: display_calls)
  with a show "m = ''No CT DICOM slices found in uploaded ZIP.''" "calls = [Error m]"
      "find_ct_slices u = Inr []"
    by auto
next
  assume "process np u = Inr calls"
  then show "calls = [Error ''No CT DICOM slices found in uploaded ZIP.''] \<or>
      (\<exists>w i c e. calls = [Write w, Imshow i (- 1000) 400, Hist c e])"
    by (auto simp: process_Inr_iff dest!: display_calls)
qed

theorem no_ct_error_only_witness:
  "zip_ok sample_upload_no_ct \<and>
   list_all (\<lambda>p. other_modality (dcmread sample_upload_no_ct p)) (dcm_paths (walk sample_upload_no_ct)) \<and>
   find_ct_slices sample_upload_no_ct = Inr [] \<and>
   process exact_numpy sample_upload_no_ct = Inr [Error ''No CT DICOM slices found in uploaded ZIP.''] \<and>
   Error ''No CT DICOM slices found in uploaded ZIP.'' \<in> set [Error ''No CT DICOM slices found in uploaded ZIP.''] \<and>
   app exact_numpy (Some sample_upload_no_ct) =
        Inr [Title ''CT Slice Viewer + HU Histogram'',
             Error ''No CT DICOM slices found in uploaded ZIP.'']"
proof -
  have z: "zip_ok sample_upload_no_ct"
    by (simp add: sample_upload_no_ct_def)
  have o: "list_all (\<lambda>p. other_modality (dcmread sample_upload_no_ct p))
      (dcm_paths (walk sample_upload_no_ct))"
    unfolding dp_no_ct
    by (simp add: sample_upload_no_ct_def other_modality_def slice_mr_def slice_pt_def str_simps)
  note t = no_ct_error_only [of sample_upload_no_ct exact_numpy
      "[Error ''No CT DICOM slices found in uploaded ZIP.'']"
      "''No CT DICOM slices found in uploaded ZIP.''"]
  from t z o have p: "process exact_numpy sample_upload_no_ct =
      Inr [Error ''No CT DICOM slices found in uploaded ZIP.'']"
    by blast
  with t have f: "find_ct_slices sample_upload_no_ct = Inr []"
    by simp
  with t z have "app exact_numpy (Some sample_upload_no_ct) =
        Inr [Title ''CT Slice Viewer + HU Histogram'',
             Error ''No CT DICOM slices found in uploaded ZIP.'']"
    by blast
  with z o p f show ?thesis by simp
qed

subsection \<open>C6: which files are read and which records are kept\<close>

text \<open>
  C6. The scan succeeds exactly when every file of the walk whose name ends in
  \<^verbatim>\<open>.dcm\<close>, in any letter case, parses to a dataset with a Modality tag, and it then
  keeps, in the order of the walk, exactly the datasets read at those paths whose Modality,
  uppercased, is CT. No other file is read and no other modality contributes: a reader that
  differs from the actual one only away from the \<^verbatim>\<open>.dcm\<close> paths, or by putting one
  dataset of another modality in place of another, gives the same kept records and the
  same run, so the same volume, displayed slice and histogram.
\<close>

theorem ct_filter_exact:
  "(find_ct_slices u = Inr cts \<longleftrightarrow>
      list_all (parses (dcmread u)) (dcm_paths (walk u)) \<and>
      cts = kept (dcmread u) (dcm_paths (walk u))) \<and>
   (list_all (same_or_other (dcmread u) rd') (dcm_paths (walk u)) \<longrightarrow>
      find_ct_slices (u\<lparr>dcmread := rd'\<rparr>) = find_ct_slices u \<and>
      process np (u\<lparr>dcmread := rd'\<rparr>) = process np u)"
proof (intro conjI impI)
  show "find_ct_slices u = Inr cts \<longleftrightarrow>
      list_all (parses (dcmread u)) (dcm_paths (walk u)) \<and>
      cts = kept (dcmread u) (dcm_paths (walk u))"
    by (rule find_ct_slices_Inr_iff)
next
  assume a: "list_all (same_or_other (dcmread u) rd') (dcm_paths (walk u))"
  show "find_ct_slices (u\<lparr>dcmread := rd'\<rparr>) = find_ct_slices u"
    using scan_walk_cong [OF a, of "[]"] by (simp add: find_ct_slices_def)
  show "process np (u\<lparr>dcmread := rd'\<rparr>) = process np u"
    by (rule process_cong [OF a])
qed

theorem ct_filter_exact_witness:
  "find_ct_slices sample_upload = Inr [slice_a, slice_b, slice_c] \<and>
   list_all (same_or_other (dcmread sample_upload)
       ((dcmread sample_upload)(''/tmp/t/series/mr.dcm'' \<mapsto> slice_pt, ''/tmp/t/notes.txt'' \<mapsto> slice_a)))
     (dcm_paths (walk sample_upload)) \<and>
   process exact_numpy
     (sample_upload\<lparr>dcmread :=
        (dcmread sample_upload)(''/tmp/t/series/mr.dcm'' \<mapsto> slice_pt, ''/tmp/t/notes.txt'' \<mapsto> slice_a)\<rparr>) =
   process exact_numpy sample_upload"
proof -
  let ?rd' = "(dcmread sample_upload)(''/tmp/t/series/mr.dcm'' \<mapsto> slice_pt, ''/tmp/t/notes.txt'' \<mapsto> slice_a)"
  have p: "list_all (parses (dcmread sample_upload)) (dcm_paths (walk sample_upload))"
    unfolding dp_sample by (simp add: parses_def sample_defs)
  have k: "[slice_a, slice_b, slice_c] = kept (dcmread sample_upload) (dcm_paths (walk sample_upload))"
    unfolding dp_sample by (simp add: kept_def ct_at_def is_ct_def sample_defs str_simps)
  have s: "list_all (same_or_other (dcmread sample_upload) ?rd') (dcm_paths (walk sample_upload))"
    unfolding dp_sample
    by (simp add: same_or_other_def other_modality_def sample_defs str_simps)
  note t = ct_filter_exact [of sample_upload "[slice_a, slice_b, slice_c]" ?rd' exact_numpy]
  from t p k have "find_ct_slices sample_upload = Inr [slice_a, slice_b, slice_c]"
    by blast
  moreover from t s have "process exact_numpy (sample_upload\<lparr>dcmread := ?rd'\<rparr>) =
      process exact_numpy sample_upload"
    by blast
  ultimately show ?thesis using s by simp
qed

subsection \<open>C7: the histogram\<close>

text \<open>
  C7. Whatever the volume holds, the histogram call is given all the values of all its
  slices, flattened in order, and never raises: it has exactly 200 bins over 201 edges,
  the edges run from -1000 to 2000 in steps of 15, bin \<open>i\<close> counts, over every slice,
  the values from edge \<open>i\<close> up to, not including, edge \<open>i + 1\<close>, and the last bin
  also counts the value 2000. A value outside [-1000, 2000] (an infinity and NaN among
  them) is in no bin, every value inside is in exactly one: the counts add up to the
  number of values of all slices in the range. Whenever the display branch returns, which
  it does for a volume whose middle slice \<^verbatim>\<open>imshow\<close> takes, these counts and edges are
  what it has drawn.
\<close>

theorem histogram_fixed_bins:
  "np_histogram (ravel v) 200 (- 1000, 2000) = Inr (hist_counts (ravel v), hist_edges) \<and>
   ravel v = concat (map flat v) \<and>
   length (ravel v) = sum_list (map (\<lambda>a. length (flat a)) v) \<and>
   length (hist_counts (ravel v)) = 200 \<and>
   length hist_edges = 201 \<and>
   (\<forall>i\<le>200. hist_edges ! i = - 1000 + 15 * of_nat i) \<and>
   (\<forall>i<200. hist_counts (ravel v) ! i =
      sum_list (map (\<lambda>a. length (filter (in_bin hist_edges 200 i) (flat a))) v)) \<and>
   (\<forall>i<200. \<forall>x. in_bin hist_edges 200 i (Finite x) \<longleftrightarrow>
      hist_edges ! i \<le> x \<and> (x < hist_edges ! Suc i \<or> (i = 199 \<and> x = 2000))) \<and>
   (\<forall>i<200. \<forall>x. \<not> in_hist_range x \<longrightarrow> \<not> in_bin hist_edges 200 i x) \<and>
   sum_list (hist_counts (ravel v)) =
     sum_list (map (\<lambda>a. length (filter in_hist_range (flat a))) v) \<and>
   (display v = Inr calls \<longrightarrow>
      (\<exists>w m. calls = [Write w, Imshow m (- 1000) 400,
         Hist (hist_counts (ravel v)) hist_edges])) \<and>
   (v \<noteq> [] \<and> imshow_accepts (shape (v ! (length v div 2))) \<longrightarrow>
      (\<exists>w m. display v = Inr [Write w, Imshow m (- 1000) 400,
         Hist (hist_counts (ravel v)) hist_edges]))"
proof (intro conjI allI impI)
  show "np_histogram (ravel v) 200 (- 1000, 2000) = Inr (hist_counts (ravel v), hist_edges)"
    by (rule np_histogram_fixed)
  show "ravel v = concat (map flat v)" by (simp add: ravel_def)
  show "length (ravel v) = sum_list (map (\<lambda>a. length (flat a)) v)" by (rule length_ravel)
  show "length (hist_counts (ravel v)) = 200" by (simp add: hist_counts_def)
  show "length hist_edges = 201" by (rule length_hist_edges)
  show "sum_list (hist_counts (ravel v)) =
     sum_list (map (\<lambda>a. length (filter in_hist_range (flat a))) v)"
    by (simp add: sum_hist_counts filter_ravel)
next
  fix i :: nat assume "i \<le> 200"
  then show "hist_edges ! i = - 1000 + 15 * of_nat i" by (rule hist_edges_nth)
next
  fix i :: nat assume "i < 200"
  then show "hist_counts (ravel v) ! i =
      sum_list (map (\<lambda>a. length (filter (in_bin hist_edges 200 i) (flat a))) v)"
    by (rule hist_counts_slices)
next
  fix i :: nat and x :: rat assume "i < 200"
  then show "in_bin hist_edges 200 i (Finite x) \<longleftrightarrow>
      hist_edges ! i \<le> x \<and> (x < hist_edges ! Suc i \<or> (i = 199 \<and> x = 2000))"
    by (auto simp: in_bin_def hist_edges_nth)
next
  fix i :: nat and x assume "i < 200" "\<not> in_hist_range x"
  then show "\<not> in_bin hist_edges 200 i x" by (rule not_in_range_no_bin)
next
  assume "display v = Inr calls"
  then show "\<exists>w m. calls = [Write w, Imshow m (- 1000) 400,
         Hist (hist_counts (ravel v)) hist_edges]"
    by (simp add: display_Inr_iff)
next
  assume "v \<noteq> [] \<and> imshow_accepts (shape (v ! (length v div 2)))"
  then show "\<exists>w m. display v = Inr [Write w, Imshow m (- 1000) 400,
         Hist (hist_counts (ravel v)) hist_edges]"
    by (simp add: display_hist)
qed

theorem histogram_fixed_bins_witness:
  "sample_volume \<noteq> [] \<and>
   imshow_accepts (shape (sample_volume ! (length sample_volume div 2))) \<and>
   ravel sample_volume =
     [Finite 30, Finite 2000, Finite 0, Finite 8976, Finite (- 2000), Finite 0] \<and>
   length (ravel sample_volume) = 6 \<and>
   np_histogram (ravel sample_volume) 200 (- 1000, 2000) =
     Inr (hist_counts (ravel sample_volume), hist_edges) \<and>
   hist_edges ! 0 = - 1000 \<and> hist_edges ! 1 = - 985 \<and> hist_edges ! 200 = 2000 \<and>
   \<not> in_hist_range (Finite 8976) \<and> \<not> in_bin hist_edges 200 199 (Finite 8976) \<and>
   \<not> in_hist_range (Finite (- 2000)) \<and> \<not> in_bin hist_edges 200 0 (Finite (- 2000)) \<and>
   in_bin hist_edges 200 199 (Finite 2000) \<and>
   hist_counts (ravel sample_volume) ! 66 = 2 \<and>
   hist_counts (ravel sample_volume) ! 199 = 1 \<and>
   sum_list (hist_counts (ravel sample_volume)) = 4 \<and>
   (\<exists>w m. display sample_volume = Inr [Write w, Imshow m (- 1000) 400,
      Hist (hist_counts (ravel sample_volume)) hist_edges])"
proof -
  note t = histogram_fixed_bins [of sample_volume "[]"]
  note t1 = t [THEN conjunct1]
  note t2 = t [THEN conjunct2, THEN conjunct1]
  note t3 = t [THEN conjunct2, THEN conjunct2, THEN conjunct1]
  note r6 = t [THEN conjunct2, THEN conjunct2, THEN conjunct2, THEN conjunct2, THEN conjunct2]
  note t6 = r6 [THEN conjunct1]
  note t7 = r6 [THEN conjunct2, THEN conjunct1]
  note t8 = r6 [THEN conjunct2, THEN conjunct2, THEN conjunct1]
  note t9 = r6 [THEN conjunct2, THEN conjunct2, THEN conjunct2, THEN conjunct1]
  note r10 = r6 [THEN conjunct2, THEN conjunct2, THEN conjunct2, THEN conjunct2]
  note t10 = r10 [THEN conjunct1]
  note t12 = r10 [THEN conjunct2, THEN conjunct2]
  have n: "sample_volume \<noteq> []" by (simp add: sample_volume_def)
  have ac: "imshow_accepts (shape (sample_volume ! (length sample_volume div 2)))"
    by (simp add: sample_volume_def imshow_accepts_def)
  from t2 have r: "ravel sample_volume =
     [Finite 30, Finite 2000, Finite 0, Finite 8976, Finite (- 2000), Finite 0]"
    by (simp add: sample_volume_def)
  from t3 have l: "length (ravel sample_volume) = 6"
    by (simp add: sample_volume_def)
  from t6 have e0: "hist_edges ! 0 = - 1000" "hist_edges ! 1 = - 985" "hist_edges ! 200 = 2000"
    "hist_edges ! 66 = - 10" "hist_edges ! 67 = 5" "hist_edges ! 199 = 1985"
    by simp_all
  have b66: "in_bin hist_edges 200 66 (Finite x) \<longleftrightarrow> - 10 \<le> x \<and> x < 5" for x
    using t8 [rule_format, of 66 x] e0 by simp
  have b199: "in_bin hist_edges 200 199 (Finite x) \<longleftrightarrow> 1985 \<le> x \<and> x \<le> 2000" for x
    using t8 [rule_format, of 199 x] e0 by auto
  have o1: "\<not> in_hist_range (Finite 8976)" "\<not> in_hist_range (Finite (- 2000))"
    by (simp_all add: in_hist_range_def)
  with t9 have o2: "\<not> in_bin hist_edges 200 199 (Finite 8976)"
    "\<not> in_bin hist_edges 200 0 (Finite (- 2000))"
    by simp_all
  from t7 have c66: "hist_counts (ravel sample_volume) ! 66 = 2"
    by (simp add: sample_volume_def b66)
  from t7 have c199: "hist_counts (ravel sample_volume) ! 199 = 1"
    by (simp add: sample_volume_def b199)
  from t10 have s: "sum_list (hist_counts (ravel sample_volume)) = 4"
    by (simp add: sample_volume_def in_hist_range_def)
  from t12 n ac have d: "\<exists>w m. display sample_volume = Inr [Write w, Imshow m (- 1000) 400,
      Hist (hist_counts (ravel sample_volume)) hist_edges]"
    by blast
  have i199: "in_bin hist_edges 200 199 (Finite 2000)"
    by (simp add: b199)
  show ?thesis
    by (intro conjI n ac r l t1 e0(1) e0(2) e0(3) o1 o2 i199 c66 c199 s d)
qed

subsection \<open>C8: stacking\<close>

text \<open>
  C8. \<^verbatim>\<open>np.stack\<close> returns exactly when it is given at least one array and all arrays
  have one shape, and the volume is then the given arrays in the given order, which is
  the sorted order. Rescaling keeps the shape of the pixel data. So for kept datasets that
  all have an InstanceNumber and pixel data, the volume is assembled if and only if all
  their pixel arrays have the same shape; if two of them differ, the run ends in the
  ValueError of the stack, nothing having been checked before.
\<close>

theorem stack_needs_equal_shapes:
  "(np_stack arrays = Inr v \<longleftrightarrow>
      arrays \<noteq> [] \<and> (\<forall>a\<in>set arrays. \<forall>b\<in>set arrays. shape a = shape b) \<and> v = arrays) \<and>
   (pixel_array s = Some px \<longrightarrow> shape (hu_slice np s px) = shape px) \<and>
   (cts \<noteq> [] \<and> list_all (\<lambda>x. InstanceNumber x \<noteq> None) cts \<and>
    list_all (\<lambda>x. pixel_array x \<noteq> None) cts \<longrightarrow>
      ((\<exists>vol. assemble_volume np cts = Inr vol) \<longleftrightarrow>
         (\<forall>a\<in>set cts. \<forall>b\<in>set cts. pixel_shape a = pixel_shape b)) \<and>
      ((\<exists>a\<in>set cts. \<exists>b\<in>set cts. pixel_shape a \<noteq> pixel_shape b) \<longrightarrow>
         assemble_volume np cts = Inl ValueError)) \<and>
   (assemble_volume np cts = Inr vol \<longrightarrow>
      map (hu_of np) (sort_key instance_key cts) = map Some vol)"
proof (intro conjI impI)
  show "np_stack arrays = Inr v \<longleftrightarrow>
      arrays \<noteq> [] \<and> (\<forall>a\<in>set arrays. \<forall>b\<in>set arrays. shape a = shape b) \<and> v = arrays"
    by (rule np_stack_Inr_iff)
  show "shape (hu_slice np s px) = shape px"
    by (rule shape_hu_slice)
next
  assume "assemble_volume np cts = Inr vol"
  then show "map (hu_of np) (sort_key instance_key cts) = map Some vol"
    by (simp add: assemble_volume_Inr_iff)
next
  assume a: "cts \<noteq> [] \<and> list_all (\<lambda>x. InstanceNumber x \<noteq> None) cts \<and>
    list_all (\<lambda>x. pixel_array x \<noteq> None) cts"
  let ?arrs = "map (\<lambda>s. hu_slice np s (the (pixel_array s))) (sort_key instance_key cts)"
  from a have av: "assemble_volume np cts = np_stack ?arrs"
    by (simp add: assemble_volume_stack)
  from a have ne: "?arrs \<noteq> []"
    by (metis length_0_conv length_map length_sort)
  have ps: "pixel_shape x = Some (shape (hu_slice np x (the (pixel_array x))))" if "x \<in> set cts" for x
    using a that by (intro pixel_shape_hu) (auto simp: list_all_iff)
  have sh: "(\<forall>a\<in>set ?arrs. \<forall>b\<in>set ?arrs. shape a = shape b) \<longleftrightarrow>
      (\<forall>a\<in>set cts. \<forall>b\<in>set cts. pixel_shape a = pixel_shape b)"
    by (auto simp: ps)
  show iff: "(\<exists>vol. assemble_volume np cts = Inr vol) \<longleftrightarrow>
         (\<forall>a\<in>set cts. \<forall>b\<in>set cts. pixel_shape a = pixel_shape b)"
    unfolding av np_stack_Inr_iff sh [symmetric] using ne by blast
  {
    assume "\<exists>a\<in>set cts. \<exists>b\<in>set cts. pixel_shape a \<noteq> pixel_shape b"
    with iff have "\<not> (\<exists>vol. assemble_volume np cts = Inr vol)"
      by blast
    then obtain e where "np_stack ?arrs = Inl e"
      unfolding av by (cases "np_stack ?arrs") auto
    then show "assemble_volume np cts = Inl ValueError"
      unfolding av using np_stack_error by blast
  }
qed

theorem stack_needs_equal_shapes_witness:
  "[slice_a, slice_b, slice_c] \<noteq> [] \<and>
   list_all (\<lambda>x. InstanceNumber x \<noteq> None) [slice_a, slice_b, slice_c] \<and>
   list_all (\<lambda>x. pixel_array x \<noteq> None) [slice_a, slice_b, slice_c] \<and>
   pixel_shape slice_a = Some [1, 2] \<and> pixel_shape slice_b = Some [1, 2] \<and>
   pixel_shape slice_c = Some [1, 2] \<and>
   (\<exists>vol. assemble_volume exact_numpy [slice_a, slice_b, slice_c] = Inr vol) \<and>
   pixel_array slice_c = Some \<lparr>shape = [1, 2], flat = [512, 5000]\<rparr> \<and>
   shape (hu_slice exact_numpy slice_c \<lparr>shape = [1, 2], flat = [512, 5000]\<rparr>) = [1, 2] \<and>
   map (hu_of exact_numpy) (sort_key instance_key [slice_a, slice_b, slice_c]) =
     map Some sample_volume \<and>
   pixel_shape slice_a \<noteq> pixel_shape slice_mr \<and>
   assemble_volume exact_numpy [slice_a, slice_mr] = Inl ValueError"
proof -
  have h: "[slice_a, slice_b, slice_c] \<noteq> [] \<and>
     list_all (\<lambda>x. InstanceNumber x \<noteq> None) [slice_a, slice_b, slice_c] \<and>
     list_all (\<lambda>x. pixel_array x \<noteq> None) [slice_a, slice_b, slice_c]"
    by (simp add: sample_defs)
  have e: "\<forall>a\<in>set [slice_a, slice_b, slice_c]. \<forall>b\<in>set [slice_a, slice_b, slice_c].
      pixel_shape a = pixel_shape b"
    by (simp add: sample_defs pixel_shape_def)
  have p: "pixel_array slice_c = Some \<lparr>shape = [1, 2], flat = [512, 5000]\<rparr>"
    by (simp add: sample_defs)
  note t = stack_needs_equal_shapes [of "[]" "[]" slice_c "\<lparr>shape = [1, 2], flat = [512, 5000]\<rparr>"
      exact_numpy "[slice_a, slice_b, slice_c]" sample_volume]
  from t h e have 1: "\<exists>vol. assemble_volume exact_numpy [slice_a, slice_b, slice_c] = Inr vol"
    by blast
  from t p have "shape (hu_slice exact_numpy slice_c \<lparr>shape = [1, 2], flat = [512, 5000]\<rparr>) =
      shape \<lparr>shape = [1, 2], flat = [512 :: int, 5000]\<rparr>"
    by blast
  then have 2: "shape (hu_slice exact_numpy slice_c \<lparr>shape = [1, 2], flat = [512, 5000]\<rparr>) = [1, 2]"
    by simp
  from t assemble_sample have 3: "map (hu_of exact_numpy) (sort_key instance_key [slice_a, slice_b, slice_c]) =
     map Some sample_volume"
    by blast
  have h': "[slice_a, slice_mr] \<noteq> [] \<and>
     list_all (\<lambda>x. InstanceNumber x \<noteq> None) [slice_a, slice_mr] \<and>
     list_all (\<lambda>x. pixel_array x \<noteq> None) [slice_a, slice_mr]"
    by (simp add: sample_defs)
  have d: "pixel_shape slice_a \<noteq> pixel_shape slice_mr"
    by (simp add: sample_defs pixel_shape_def)
  then have d': "\<exists>a\<in>set [slice_a, slice_mr]. \<exists>b\<in>set [slice_a, slice_mr].
      pixel_shape a \<noteq> pixel_shape b"
    by auto
  from h' d' stack_needs_equal_shapes [of "[]" "[]" slice_a "\<lparr>shape = [], flat = []\<rparr>"
      exact_numpy "[slice_a, slice_mr]" "[]"]
  have 4: "assemble_volume exact_numpy [slice_a, slice_mr] = Inl ValueError"
    by blast
  have q: "pixel_shape slice_a = Some [1, 2] \<and> pixel_shape slice_b = Some [1, 2] \<and>
      pixel_shape slice_c = Some [1, 2]"
    by (simp add: sample_defs pixel_shape_def)
  from h q p 1 2 3 d 4 show ?thesis by (intro conjI) simp_all
qed

subsection \<open>C9: the middle index is in bounds\<close>

text \<open>
  C9. When the display branch is reached, the scan kept at least one dataset, the volume
  has as many slices as there are kept datasets, so at least one, the middle index is
  smaller than the number of slices, and indexing the first axis with it returns a slice.
  No run ends in an IndexError.
\<close>

theorem middle_index_in_bounds:
  "(zip_ok u \<and> find_ct_slices u = Inr cts \<and> cts \<noteq> [] \<and> assemble_volume np cts = Inr v \<longrightarrow>
      length v = length cts \<and> 0 < length v \<and> mid_slice_idx v < length v \<and>
      getitem v (mid_slice_idx v) = Inr (v ! mid_slice_idx v)) \<and>
   (0 < length v \<longrightarrow>
      mid_slice_idx v < length v \<and> getitem v (mid_slice_idx v) = Inr (v ! mid_slice_idx v)) \<and>
   process np u \<noteq> Inl IndexError \<and>
   app np uploaded_file \<noteq> Inl IndexError"
proof (intro conjI impI)
  assume a: "zip_ok u \<and> find_ct_slices u = Inr cts \<and> cts \<noteq> [] \<and> assemble_volume np cts = Inr v"
  then show l: "length v = length cts" by (auto dest: assemble_volume_length)
  with a show p: "0 < length v" by simp
  then show "mid_slice_idx v < length v" by (simp add: mid_slice_idx_def)
  then show "getitem v (mid_slice_idx v) = Inr (v ! mid_slice_idx v)" by (simp add: getitem_def)
next
  assume "0 < length v"
  then show m: "mid_slice_idx v < length v" by (simp add: mid_slice_idx_def)
  then show "getitem v (mid_slice_idx v) = Inr (v ! mid_slice_idx v)" by (simp add: getitem_def)
next
  show "process np u \<noteq> Inl IndexError"
    using process_error [of np u IndexError] by auto
  show "app np uploaded_file \<noteq> Inl IndexError"
  proof (cases uploaded_file)
    case None
    then show ?thesis by (simp add: app_def)
  next
    case (Some u')
    then show ?thesis
      using process_error [of np u' IndexError] by (auto simp: app_def split: sum.splits)
  qed
qed

theorem middle_index_in_bounds_witness:
  "zip_ok sample_upload \<and> find_ct_slices sample_upload = Inr [slice_a, slice_b, slice_c] \<and>
   [slice_a, slice_b, slice_c] \<noteq> [] \<and>
   assemble_volume exact_numpy [slice_a, slice_b, slice_c] = Inr sample_volume \<and>
   length sample_volume = 3 \<and> mid_slice_idx sample_volume = 1 \<and>
   getitem sample_volume 1 = Inr \<lparr>shape = [1, 2], flat = [Finite 0, Finite 8976]\<rparr> \<and>
   process exact_numpy sample_upload \<noteq> Inl IndexError"
proof -
  have z: "zip_ok sample_upload" by (simp add: sample_upload_def)
  have n: "[slice_a, slice_b, slice_c] \<noteq> []" by simp
  note t = middle_index_in_bounds [of sample_upload "[slice_a, slice_b, slice_c]" exact_numpy
      sample_volume "Some sample_upload"]
  from t [THEN conjunct1] z find_sample n assemble_sample
  have 1: "length sample_volume = length [slice_a, slice_b, slice_c] \<and> 0 < length sample_volume \<and>
      mid_slice_idx sample_volume < length sample_volume \<and>
      getitem sample_volume (mid_slice_idx sample_volume) =
        Inr (sample_volume ! mid_slice_idx sample_volume)"
    by (elim impE) (intro conjI, assumption+)
  have m: "mid_slice_idx sample_volume = 1"
    by (simp add: mid_slice_idx_def sample_volume_def)
  from 1 have 2: "getitem sample_volume 1 = Inr \<lparr>shape = [1, 2], flat = [Finite 0, Finite 8976]\<rparr>"
    unfolding m by (simp add: sample_volume_def)
  from t have 3: "process exact_numpy sample_upload \<noteq> Inl IndexError"
    by simp
  from z find_sample n assemble_sample 1 m 2 3 show ?thesis
    by (intro conjI) simp_all
qed

subsection \<open>C10: the saved archive\<close>

text \<open>
  C10. The archive is saved as \<^verbatim>\<open>uploaded.zip\<close> in the temporary directory, the
  directory that is extracted into and walked, so the walk meets it; but its name does not
  end in \<^verbatim>\<open>.dcm\<close>, its path is none of the paths handed to pydicom, and whatever
  pydicom would make of it changes neither the kept records nor the run.
\<close>

theorem archive_never_parsed:
  "\<not> is_dcm ''uploaded.zip'' \<and>
   zip_path u \<notin> set (dcm_paths (walk u)) \<and>
   find_ct_slices (u\<lparr>dcmread := (dcmread u)(zip_path u := r)\<rparr>) = find_ct_slices u \<and>
   process np (u\<lparr>dcmread := (dcmread u)(zip_path u := r)\<rparr>) = process np u \<and>
   ((tmpdirname u, dirs, files) \<in> set (walk u) \<and> ''uploaded.zip'' \<in> set files \<longrightarrow>
      zip_path u \<in> set (walked_paths (walk u)))"
proof (intro conjI impI)
  show "\<not> is_dcm ''uploaded.zip''"
    by (rule not_is_dcm_uploaded)
  show n: "zip_path u \<notin> set (dcm_paths (walk u))"
    by (rule zip_path_not_parsed)
  then have a: "list_all (same_or_other (dcmread u) ((dcmread u)(zip_path u := r))) (dcm_paths (walk u))"
    by (auto simp: list_all_iff same_or_other_def)
  show "find_ct_slices (u\<lparr>dcmread := (dcmread u)(zip_path u := r)\<rparr>) = find_ct_slices u"
    using scan_walk_cong [OF a, of "[]"] by (simp add: find_ct_slices_def)
  show "process np (u\<lparr>dcmread := (dcmread u)(zip_path u := r)\<rparr>) = process np u"
    by (rule process_cong [OF a])
next
  assume "(tmpdirname u, dirs, files) \<in> set (walk u) \<and> ''uploaded.zip'' \<in> set files"
  then show "zip_path u \<in> set (walked_paths (walk u))"
    unfolding zip_path_def by (blast intro: walked_paths_mem)
qed

theorem archive_never_parsed_witness:
  "(tmpdirname sample_upload, [''series''], [''uploaded.zip'', ''notes.txt'']) \<in> set (walk sample_upload) \<and>
   ''uploaded.zip'' \<in> set [''uploaded.zip'', ''notes.txt''] \<and>
   zip_path sample_upload = ''/tmp/t/uploaded.zip'' \<and>
   ''/tmp/t/uploaded.zip'' \<in> set (walked_paths (walk sample_upload)) \<and>
   ''/tmp/t/uploaded.zip'' \<notin> set (dcm_paths (walk sample_upload)) \<and>
   process exact_numpy (sample_upload\<lparr>dcmread := (dcmread sample_upload)(''/tmp/t/uploaded.zip'' := Some slice_a)\<rparr>) =
     process exact_numpy sample_upload"
proof -
  have z: "zip_path sample_upload = ''/tmp/t/uploaded.zip''"
    by (simp add: zip_path_def sample_upload_def str_simps)
  have h: "(tmpdirname sample_upload, [''series''], [''uploaded.zip'', ''notes.txt'']) \<in> set (walk sample_upload) \<and>
     ''uploaded.zip'' \<in> set [''uploaded.zip'', ''notes.txt'']"
    by (simp add: sample_upload_def)
  show ?thesis
    using h z archive_never_parsed [of sample_upload "Some slice_a" exact_numpy "[''series'']"
        "[''uploaded.zip'', ''notes.txt'']"]
    by simp
qed

end
